theory Spec2Isabelle
  imports Complex_Main "HOL-Library.AList"
begin

section \<open>Values, dictionaries and exceptions\<close>

text \<open>
  The application is written in Python over JSON-like data. Every record of the store
  (user, restaurant, menu item, order) is a Python \<^verbatim>\<open>dict\<close> with string keys. A dict is
  modelled as an association list: \<open>map_of d k\<close> is \<^verbatim>\<open>d[k]\<close> (with \<open>None\<close> when the
  key is absent, where Python raises \<^verbatim>\<open>KeyError\<close>), and \<open>AList.update k v d\<close> is
  \<^verbatim>\<open>d[k] = v\<close>: an existing key keeps its place, a new key goes to the end, as in a
  Python dict. Python's \<^verbatim>\<open>int\<close> and \<^verbatim>\<open>float\<close> are both modelled by \<open>VNum\<close> over the
  reals (a double is a real number). The rounding of double-precision arithmetic is
  modelled for \<^verbatim>\<open>calculate_eta\<close>, whose result depends on it. The Haversine function is
  given in exact arithmetic, and where a result of the application depends on its computed
  value (the radius test of the restaurant search) the computed function is a parameter.
\<close>

datatype val =
    VNone
  | VBool bool
  | VNum real
  | VStr string
  | VList "val list"
  | VDict "(string \<times> val) list"

type_synonym dict = "(string \<times> val) list"

datatype py_error =
    KeyError string
  | TypeError
  | ValueError
  | ZeroDivisionError
  | IndexError
  | AttributeError
  | OverflowError

section \<open>Geo utility (utils/geo\_utils.py)\<close>

definition radians :: "real \<Rightarrow> real" where
  "radians x = x * (pi / 180)"

text \<open>
  \<^verbatim>\<open>calculate_distance(lat1, lon1, lat2, lon2)\<close>. \<^verbatim>\<open>math.sqrt\<close> raises \<^verbatim>\<open>ValueError\<close> on a
  negative argument and \<^verbatim>\<open>math.asin\<close> raises it outside \<open>[-1, 1]\<close>; both raises are
  branches of the model.
\<close>

definition haversine_a :: "real \<Rightarrow> real \<Rightarrow> real \<Rightarrow> real \<Rightarrow> real" where
  "haversine_a lat1 lon1 lat2 lon2 =
     (let dlon = lon2 - lon1;
          dlat = lat2 - lat1
      in (sin (dlat / 2))\<^sup>2 + cos lat1 * cos lat2 * (sin (dlon / 2))\<^sup>2)"

definition calculate_distance :: "real \<Rightarrow> real \<Rightarrow> real \<Rightarrow> real \<Rightarrow> py_error + real" where
  "calculate_distance lat1 lon1 lat2 lon2 =
     (let a = haversine_a (radians lat1) (radians lon1) (radians lat2) (radians lon2)
      in if a < 0 then Inl ValueError
         else if sqrt a < - 1 \<or> 1 < sqrt a then Inl ValueError
         else let c = 2 * arcsin (sqrt a);
                  r = 6371
              in Inr (c * r))"

text \<open>
  Python's \<^verbatim>\<open>int(x)\<close> on a float truncates towards zero (used in \<^verbatim>\<open>calculate_eta\<close> and
  for the clock reading \<^verbatim>\<open>int(time.time())\<close> of the registration).
\<close>

definition py_int :: "real \<Rightarrow> int" where
  "py_int x = (if 0 \<le> x then \<lfloor>x\<rfloor> else \<lceil>x\<rceil>)"

text \<open>
  Double precision. Python's \<^verbatim>\<open>float\<close> is the binary64 format, and \<^verbatim>\<open>/\<close>, \<^verbatim>\<open>*\<close> and \<^verbatim>\<open>+\<close> on
  floats return the exact result rounded to the nearest double, a tie going to the double
  with the even significand. \<open>to_double x\<close> is the double nearest to the real \<open>x\<close>, and
  \<open>None\<close> when the rounded value leaves the range, where the operation returns an
  infinity. \<open>binade a\<close> is the exponent \<open>e\<close> with \<open>2 powi e \<le> a < 2 powi (e + 1)\<close>, found
  by halving or doubling at most as often as the format has exponents; a double of that
  binade is a multiple of \<open>2 powi (e - 52)\<close>, and below \<open>2 powi (- 1022)\<close> the doubles are
  the multiples of \<open>2 powi (- 1074)\<close>.
\<close>

definition round_half_even :: "real \<Rightarrow> int" where
  "round_half_even y =
     (let f = \<lfloor>y\<rfloor>;
          d = y - of_int f
      in if d < 1 / 2 then f
         else if 1 / 2 < d then f + 1
         else if even f then f else f + 1)"

fun binade_up :: "nat \<Rightarrow> real \<Rightarrow> int" where
  "binade_up 0 x = 0"
| "binade_up (Suc n) x = (if x < 2 then 0 else binade_up n (x / 2) + 1)"

fun binade_down :: "nat \<Rightarrow> real \<Rightarrow> int" where
  "binade_down 0 x = 0"
| "binade_down (Suc n) x = (if 1 \<le> x then 0 else binade_down n (x * 2) - 1)"

definition binade :: "real \<Rightarrow> int" where
  "binade x = (if 1 \<le> x then binade_up 1024 x else binade_down 1075 x)"

definition to_double :: "real \<Rightarrow> real option" where
  "to_double x =
     (let a = \<bar>x\<bar>
      in if a = 0 then Some 0
         else if 2 powi 1024 \<le> a then None
         else let e = max (binade a) (- 1022);
                  ulp = 2 powi (e - 52);
                  r = of_int (round_half_even (a / ulp)) * ulp
              in if 2 powi 1024 \<le> r then None else Some (if x < 0 then - r else r))"

text \<open>
  The three operations of \<^verbatim>\<open>calculate_eta\<close> on doubles. The second operand of the
  multiplication and of the addition is a positive constant, so an infinite first operand
  gives an infinite result and no operation gives a NaN. \<^verbatim>\<open>int(x)\<close> truncates a finite
  double exactly and raises \<^verbatim>\<open>OverflowError\<close> on an infinity.
\<close>

definition float_div :: "real \<Rightarrow> real \<Rightarrow> real option" where
  "float_div a b = to_double (a / b)"

definition float_mul :: "real option \<Rightarrow> real \<Rightarrow> real option" where
  "float_mul a b = (case a of None \<Rightarrow> None | Some x \<Rightarrow> to_double (x * b))"

definition float_add :: "real option \<Rightarrow> real \<Rightarrow> real option" where
  "float_add a b = (case a of None \<Rightarrow> None | Some x \<Rightarrow> to_double (x + b))"

definition int_of_float :: "real option \<Rightarrow> py_error + int" where
  "int_of_float a = (case a of None \<Rightarrow> Inl OverflowError | Some x \<Rightarrow> Inr (py_int x))"

text \<open>
  \<^verbatim>\<open>calculate_eta(distance_km, speed_km_per_hour=25)\<close>; the division raises on speed 0.
\<close>

definition calculate_eta :: "real \<Rightarrow> real \<Rightarrow> py_error + int" where
  "calculate_eta distance_km speed_km_per_hour =
     (if speed_km_per_hour = 0 then Inl ZeroDivisionError
      else let time_hours = float_div distance_km speed_km_per_hour;
               time_minutes = float_mul time_hours 60;
               buffer_minutes = (if distance_km < 5 then 10 else 15)
           in int_of_float (float_add time_minutes buffer_minutes))"

definition calculate_eta_default :: "real \<Rightarrow> py_error + int" where
  "calculate_eta_default distance_km = calculate_eta distance_km 25"

section \<open>Record store (utils/data\_store.py)\<close>

text \<open>
  The store is one document with the four collections, held in
  \<^verbatim>\<open>st.session_state.data_store\<close> (\<open>mem\<close>) and written as a whole to
  \<^verbatim>\<open>data/app_data.json\<close> (\<open>disk\<close>) by \<^verbatim>\<open>_save_data_to_file\<close>. The write can fail; the
  exception is caught and reported, and the in-memory store stays as mutated. The flag
  \<open>w\<close> of every mutating operation says whether its write succeeds; a failed write is
  taken to leave the file as it was.
\<close>

record data_store =
  users :: "dict list"
  restaurants :: "dict list"
  menu_items :: "dict list"
  orders :: "dict list"

record app_state =
  mem :: data_store
  disk :: data_store

definition empty_store :: data_store where
  "empty_store = \<lparr>users = [], restaurants = [], menu_items = [], orders = []\<rparr>"

definition save_data_to_file :: "bool \<Rightarrow> app_state \<Rightarrow> app_state" where
  "save_data_to_file w s = (if w then s\<lparr>disk := mem s\<rparr> else s)"

datatype collection = Users | Restaurants | MenuItems | Orders

fun get_all :: "collection \<Rightarrow> data_store \<Rightarrow> dict list" where
  "get_all Users d = users d"
| "get_all Restaurants d = restaurants d"
| "get_all MenuItems d = menu_items d"
| "get_all Orders d = orders d"

fun set_all :: "collection \<Rightarrow> dict list \<Rightarrow> data_store \<Rightarrow> data_store" where
  "set_all Users xs d = d\<lparr>users := xs\<rparr>"
| "set_all Restaurants xs d = d\<lparr>restaurants := xs\<rparr>"
| "set_all MenuItems xs d = d\<lparr>menu_items := xs\<rparr>"
| "set_all Orders xs d = d\<lparr>orders := xs\<rparr>"

text \<open>
  \<^verbatim>\<open>for x in xs: if x[k] == v: return x\<close>, then \<^verbatim>\<open>return None\<close>: the loop of
  \<^verbatim>\<open>get_user_by_id\<close>, \<^verbatim>\<open>get_user_by_email\<close>, \<^verbatim>\<open>get_restaurant_by_id\<close> and
  \<^verbatim>\<open>get_order_by_id\<close>. A record without the key raises \<^verbatim>\<open>KeyError\<close> when the loop
  reaches it.
\<close>

fun find_by :: "string \<Rightarrow> val \<Rightarrow> dict list \<Rightarrow> py_error + dict option" where
  "find_by k v [] = Inr None"
| "find_by k v (x # xs) =
     (case map_of x k of
        None \<Rightarrow> Inl (KeyError k)
      | Some v' \<Rightarrow> if v' = v then Inr (Some x) else find_by k v xs)"

definition get_user_by_id :: "val \<Rightarrow> app_state \<Rightarrow> py_error + dict option" where
  "get_user_by_id user_id s = find_by ''id'' user_id (users (mem s))"


definition get_restaurant_by_id :: "val \<Rightarrow> app_state \<Rightarrow> py_error + dict option" where
  "get_restaurant_by_id rid s = find_by ''id'' rid (restaurants (mem s))"

definition get_order_by_id :: "val \<Rightarrow> app_state \<Rightarrow> py_error + dict option" where
  "get_order_by_id order_id s = find_by ''id'' order_id (orders (mem s))"

text \<open>Decimal digits of a number, as the f-string \<^verbatim>\<open>f"rest{len(...) + 1}"\<close> prints them.\<close>

definition digit_char :: "nat \<Rightarrow> char" where
  "digit_char d = ''0123456789'' ! d"

fun str_nat :: "nat \<Rightarrow> string" where
  "str_nat n = (if n < 10 then [digit_char n] else str_nat (n div 10) @ [digit_char (n mod 10)])"

declare str_nat.simps [simp del]


definition add_user :: "bool \<Rightarrow> dict \<Rightarrow> app_state \<Rightarrow> bool \<times> app_state" where
  "add_user w user s =
     (let us = users (mem s) @ [user];
          s1 = s\<lparr>mem := (mem s)\<lparr>users := us\<rparr>\<rparr>
      in (True, save_data_to_file w s1))"

definition add_restaurant :: "bool \<Rightarrow> dict \<Rightarrow> app_state \<Rightarrow> bool \<times> app_state" where
  "add_restaurant w restaurant s =
     (let restaurant1 =
            (if map_of restaurant ''id'' = None
             then AList.update ''id''
                    (VStr (''rest'' @ str_nat (length (restaurants (mem s)) + 1))) restaurant
             else restaurant);
          rs = restaurants (mem s) @ [restaurant1];
          s1 = s\<lparr>mem := (mem s)\<lparr>restaurants := rs\<rparr>\<rparr>
      in (True, save_data_to_file w s1))"

definition add_menu_item :: "bool \<Rightarrow> dict \<Rightarrow> app_state \<Rightarrow> bool \<times> app_state" where
  "add_menu_item w menu_item s =
     (let menu_item1 =
            (if map_of menu_item ''id'' = None
             then AList.update ''id''
                    (VStr (''item'' @ str_nat (length (menu_items (mem s)) + 1))) menu_item
             else menu_item);
          ms = menu_items (mem s) @ [menu_item1];
          s1 = s\<lparr>mem := (mem s)\<lparr>menu_items := ms\<rparr>\<rparr>
      in (True, save_data_to_file w s1))"

text \<open>\<^verbatim>\<open>add_order\<close> takes the clock reading \<open>now\<close> of \<^verbatim>\<open>time.time()\<close> and returns the order.\<close>

definition add_order :: "bool \<Rightarrow> real \<Rightarrow> dict \<Rightarrow> app_state \<Rightarrow> dict \<times> app_state" where
  "add_order w now order s =
     (let order1 =
            (if map_of order ''id'' = None
             then AList.update ''id''
                    (VStr (''order'' @ str_nat (length (orders (mem s)) + 1))) order
             else order);
          order2 =
            (if map_of order1 ''created_at'' = None
             then AList.update ''created_at'' (VNum now) order1
             else order1);
          order3 =
            (if map_of order2 ''status'' = None
             then AList.update ''status'' (VStr ''pending'') order2
             else order2);
          os = orders (mem s) @ [order3];
          s1 = s\<lparr>mem := (mem s)\<lparr>orders := os\<rparr>\<rparr>
      in (order3, save_data_to_file w s1))"

text \<open>
  The loop of the four update functions:
  \<^verbatim>\<open>for i, u in enumerate(xs): if u["id"] == r["id"]: xs[i] = r; ...; return True\<close>, then
  \<^verbatim>\<open>return False\<close>. \<open>None\<close> is the fall-through (no match), \<open>Some xs'\<close> the list after
  the replacement. \<^verbatim>\<open>u["id"]\<close> is read before \<^verbatim>\<open>r["id"]\<close>, and neither on an empty list.
\<close>

fun replace_first :: "dict \<Rightarrow> dict list \<Rightarrow> py_error + dict list option" where
  "replace_first r [] = Inr None"
| "replace_first r (u # us) =
     (case map_of u ''id'' of
        None \<Rightarrow> Inl (KeyError ''id'')
      | Some uid \<Rightarrow>
          (case map_of r ''id'' of
             None \<Rightarrow> Inl (KeyError ''id'')
           | Some rid \<Rightarrow>
               if uid = rid then Inr (Some (r # us))
               else (case replace_first r us of
                       Inl e \<Rightarrow> Inl e
                     | Inr None \<Rightarrow> Inr None
                     | Inr (Some us') \<Rightarrow> Inr (Some (u # us')))))"

text \<open>
  One body for \<^verbatim>\<open>update_user\<close>, \<^verbatim>\<open>update_restaurant\<close>, \<^verbatim>\<open>update_menu_item\<close> and
  \<^verbatim>\<open>update_order\<close>, which differ in the collection only. The exceptions are raised
  before anything is written, so \<open>Inl\<close> carries no state.
\<close>

definition update_record ::
  "collection \<Rightarrow> bool \<Rightarrow> dict \<Rightarrow> app_state \<Rightarrow> py_error + (bool \<times> app_state)" where
  "update_record c w r s =
     (case replace_first r (get_all c (mem s)) of
        Inl e \<Rightarrow> Inl e
      | Inr None \<Rightarrow> Inr (False, s)
      | Inr (Some xs') \<Rightarrow>
          Inr (True, save_data_to_file w (s\<lparr>mem := set_all c xs' (mem s)\<rparr>)))"


definition update_restaurant :: "bool \<Rightarrow> dict \<Rightarrow> app_state \<Rightarrow> py_error + (bool \<times> app_state)" where
  "update_restaurant = update_record Restaurants"

definition update_menu_item :: "bool \<Rightarrow> dict \<Rightarrow> app_state \<Rightarrow> py_error + (bool \<times> app_state)" where
  "update_menu_item = update_record MenuItems"

definition update_order :: "bool \<Rightarrow> dict \<Rightarrow> app_state \<Rightarrow> py_error + (bool \<times> app_state)" where
  "update_order = update_record Orders"

section \<open>Authentication (utils/authentication.py)\<close>




section \<open>Cart (pages/2\_Restaurants.py)\<close>

text \<open>
  The cart is the session list \<^verbatim>\<open>st.session_state.cart\<close>; it starts empty and its lines
  are built by \<^verbatim>\<open>add_to_cart\<close> only, always with the same six keys, so a line is a record.
  The menu item and the restaurant are dicts of the store.
\<close>

record cart_item =
  item_id :: val
  item_name :: val
  price :: val
  quantity :: int
  restaurant_id :: val
  restaurant_name :: val

fun bump_first :: "val \<Rightarrow> cart_item list \<Rightarrow> cart_item list option" where
  "bump_first i [] = None"
| "bump_first i (x # xs) =
     (if item_id x = i then Some (x\<lparr>quantity := quantity x + 1\<rparr> # xs)
      else (case bump_first i xs of None \<Rightarrow> None | Some xs' \<Rightarrow> Some (x # xs')))"

definition lookup :: "dict \<Rightarrow> string \<Rightarrow> py_error + val" where
  "lookup d k = (case map_of d k of None \<Rightarrow> Inl (KeyError k) | Some v \<Rightarrow> Inr v)"

text \<open>
  \<^verbatim>\<open>add_to_cart(menu_item, restaurant)\<close>. The result carries the message shown: \<open>True\<close> for
  "Added ... to cart!", \<open>False\<close> for "You can only add items from one restaurant at a
  time". \<open>bump_first\<close> is \<^verbatim>\<open>next(item for item in cart if item["id"] == menu_item["id"])\<close>
  followed by \<^verbatim>\<open>existing_item["quantity"] += 1\<close> on the line found; a line is never an
  empty dict, so \<^verbatim>\<open>if existing_item:\<close> holds exactly when a line is found.
\<close>

definition same_restaurant :: "dict \<Rightarrow> cart_item list \<Rightarrow> py_error + bool" where
  "same_restaurant restaurant cart =
     (case cart of
        [] \<Rightarrow> Inr True
      | c # _ \<Rightarrow> (case lookup restaurant ''id'' of
                    Inl e \<Rightarrow> Inl e
                  | Inr rid \<Rightarrow> Inr (restaurant_id c = rid)))"

definition add_to_cart :: "dict \<Rightarrow> dict \<Rightarrow> cart_item list \<Rightarrow> py_error + (bool \<times> cart_item list)" where
  "add_to_cart menu_item restaurant cart =
     (case same_restaurant restaurant cart of
        Inl e \<Rightarrow> Inl e
      | Inr False \<Rightarrow> Inr (False, cart)
      | Inr True \<Rightarrow>
          (case lookup menu_item ''id'' of Inl e \<Rightarrow> Inl e | Inr mid \<Rightarrow>
           case lookup menu_item ''name'' of Inl e \<Rightarrow> Inl e | Inr mname \<Rightarrow>
           case lookup menu_item ''price'' of Inl e \<Rightarrow> Inl e | Inr mprice \<Rightarrow>
           case lookup restaurant ''id'' of Inl e \<Rightarrow> Inl e | Inr rid \<Rightarrow>
           case lookup restaurant ''name'' of Inl e \<Rightarrow> Inl e | Inr rname \<Rightarrow>
             (let cart_item = \<lparr>item_id = mid, item_name = mname, price = mprice,
                               quantity = 1, restaurant_id = rid, restaurant_name = rname\<rparr>
              in case bump_first mid cart of
                   Some cart' \<Rightarrow> Inr (True, cart')
                 | None \<Rightarrow> Inr (True, cart @ [cart_item]))))"

definition remove_from_cart :: "val \<Rightarrow> cart_item list \<Rightarrow> cart_item list" where
  "remove_from_cart i cart = filter (\<lambda>item. item_id item \<noteq> i) cart"

section \<open>Nearby restaurants (utils/geo\_utils.py)\<close>

text \<open>
  \<^verbatim>\<open>math.radians\<close> takes an int, a float or a bool and raises \<^verbatim>\<open>TypeError\<close> on anything
  else; \<^verbatim>\<open>x[k]\<close> with a string key works on a dict only.
\<close>

fun as_float :: "val \<Rightarrow> py_error + real" where
  "as_float (VNum x) = Inr x"
| "as_float (VBool b) = Inr (if b then 1 else 0)"
| "as_float v = Inl TypeError"

fun subscript :: "val \<Rightarrow> string \<Rightarrow> py_error + val" where
  "subscript (VDict d) k = lookup d k"
| "subscript v k = Inl TypeError"

text \<open>
  The machine evaluates \<^verbatim>\<open>calculate_distance\<close> in double precision, which the function
  \<open>calculate_distance\<close> above, over the reals, only approximates: for a restaurant whose
  distance is within rounding of the radius the two can fall on different sides of the
  test \<^verbatim>\<open>distance <= radius_km\<close>. The search is therefore defined over a function \<open>calc\<close>
  that stands for \<^verbatim>\<open>calculate_distance\<close> as it is computed on four numbers; the search
  uses nothing of it but the number it returns (a double is a real number) or the exception
  it raises. \<open>calculate_distance\<close> itself is one such function.
\<close>

type_synonym distance_fn = "real \<Rightarrow> real \<Rightarrow> real \<Rightarrow> real \<Rightarrow> py_error + real"

text \<open>
  The call \<^verbatim>\<open>calculate_distance(user_location["lat"], user_location["lng"],
  restaurant["location"]["lat"], restaurant["location"]["lng"])\<close>: the four arguments are
  read from left to right, then \<^verbatim>\<open>map(math.radians, ...)\<close> converts them in the same order.
\<close>

definition calculate_distance_args ::
  "distance_fn \<Rightarrow> val \<Rightarrow> val \<Rightarrow> val \<Rightarrow> val \<Rightarrow> py_error + real" where
  "calculate_distance_args calc lat1 lon1 lat2 lon2 =
     (case as_float lat1 of Inl e \<Rightarrow> Inl e | Inr a \<Rightarrow>
      case as_float lon1 of Inl e \<Rightarrow> Inl e | Inr b \<Rightarrow>
      case as_float lat2 of Inl e \<Rightarrow> Inl e | Inr c \<Rightarrow>
      case as_float lon2 of Inl e \<Rightarrow> Inl e | Inr d \<Rightarrow>
        calc a b c d)"

definition restaurant_distance :: "distance_fn \<Rightarrow> dict \<Rightarrow> dict \<Rightarrow> py_error + real" where
  "restaurant_distance calc user_location restaurant =
     (case lookup user_location ''lat'' of Inl e \<Rightarrow> Inl e | Inr lat1 \<Rightarrow>
      case lookup user_location ''lng'' of Inl e \<Rightarrow> Inl e | Inr lon1 \<Rightarrow>
      case lookup restaurant ''location'' of Inl e \<Rightarrow> Inl e | Inr loc \<Rightarrow>
      case subscript loc ''lat'' of Inl e \<Rightarrow> Inl e | Inr lat2 \<Rightarrow>
      case subscript loc ''lng'' of Inl e \<Rightarrow> Inl e | Inr lon2 \<Rightarrow>
        calculate_distance_args calc lat1 lon1 lat2 lon2)"

text \<open>
  \<^verbatim>\<open>round(x, 2)\<close>: to the nearest multiple of 0.01, a tie going to the even one.
\<close>

definition py_round2 :: "real \<Rightarrow> real" where
  "py_round2 x =
     (let y = x * 100;
          f = \<lfloor>y\<rfloor>;
          d = y - of_int f
      in of_int (if d < 1 / 2 then f
                 else if 1 / 2 < d then f + 1
                 else if even f then f else f + 1) / 100)"

text \<open>
  The restaurant records are objects that the caller still holds, so they live in a heap:
  a reference is an index into the list of allocated dicts. \<^verbatim>\<open>restaurant.copy()\<close>
  allocates a new dict with the same items, and the assignment to its \<^verbatim>\<open>"distance"\<close> key
  writes to the new object. The heap is returned in every case, also when a read raises.
\<close>

type_synonym ref = nat

type_synonym heap = "dict list"

definition copy_dict :: "ref \<Rightarrow> heap \<Rightarrow> ref \<times> heap" where
  "copy_dict r h = (length h, h @ [h ! r])"

definition set_item :: "ref \<Rightarrow> string \<Rightarrow> val \<Rightarrow> heap \<Rightarrow> heap" where
  "set_item r k v h = h[r := AList.update k v (h ! r)]"

fun nearby_loop ::
  "distance_fn \<Rightarrow> dict \<Rightarrow> real \<Rightarrow> ref list \<Rightarrow> heap \<Rightarrow> ref list \<Rightarrow> heap \<times> (py_error + ref list)" where
  "nearby_loop calc user_location radius_km [] h nearby = (h, Inr nearby)"
| "nearby_loop calc user_location radius_km (restaurant # rest) h nearby =
     (case restaurant_distance calc user_location (h ! restaurant) of
        Inl e \<Rightarrow> (h, Inl e)
      | Inr distance \<Rightarrow>
          if distance \<le> radius_km
          then let (restaurant_with_distance, h1) = copy_dict restaurant h;
                   h2 = set_item restaurant_with_distance ''distance''
                          (VNum (py_round2 distance)) h1
               in nearby_loop calc user_location radius_km rest h2
                    (nearby @ [restaurant_with_distance])
          else nearby_loop calc user_location radius_km rest h nearby)"

text \<open>
  The sort key \<^verbatim>\<open>x["distance"]\<close>. Every entry of \<^verbatim>\<open>nearby\<close> has just been given a numeric
  \<^verbatim>\<open>"distance"\<close>, so the other cases are never reached. \<^verbatim>\<open>sorted\<close> is stable, as is
  \<open>sort_key\<close>.
\<close>

definition distance_key :: "dict \<Rightarrow> real" where
  "distance_key x = (case map_of x ''distance'' of Some (VNum d) \<Rightarrow> d | _ \<Rightarrow> 0)"

definition get_nearby_restaurants ::
  "distance_fn \<Rightarrow> dict \<Rightarrow> ref list \<Rightarrow> real \<Rightarrow> heap \<Rightarrow> heap \<times> (py_error + ref list)" where
  "get_nearby_restaurants calc user_location restaurant_refs radius_km h =
     (case nearby_loop calc user_location radius_km restaurant_refs h [] of
        (h', Inl e) \<Rightarrow> (h', Inl e)
      | (h', Inr nearby) \<Rightarrow> (h', Inr (sort_key (\<lambda>x. distance_key (h' ! x)) nearby)))"

text \<open>
  For the statements: the distance of a restaurant record from the user location as
  \<open>calc\<close> computes it, before any rounding, where it can be computed.
\<close>

definition true_distance :: "distance_fn \<Rightarrow> dict \<Rightarrow> dict \<Rightarrow> real" where
  "true_distance calc user_location restaurant =
     (case restaurant_distance calc user_location restaurant of Inr d \<Rightarrow> d | Inl e \<Rightarrow> 0)"

definition with_distance :: "distance_fn \<Rightarrow> dict \<Rightarrow> dict \<Rightarrow> dict" where
  "with_distance calc user_location restaurant =
     AList.update ''distance'' (VNum (py_round2 (true_distance calc user_location restaurant)))
       restaurant"

section \<open>Checkout (pages/2\_Restaurants.py)\<close>

text \<open>
  The "Place Order" handler builds the order dict below and passes it to \<^verbatim>\<open>add_order\<close>.
  The values of its keys other than \<^verbatim>\<open>"status"\<close> are read from the session (user, cart,
  selected restaurant) and from the form before the dict is built; they are the fields of
  \<open>checkout\<close> (the items are the strings \<^verbatim>\<open>f"{item['name']} x{item['quantity']}"\<close> of the
  cart lines). A read that raises does so before anything is stored. An empty address
  shows an error and stores nothing. What follows \<^verbatim>\<open>add_order\<close> (the confirmation SMS,
  clearing the cart) does not touch the store.
\<close>

record checkout =
  co_user_id :: val
  co_customer_name :: val
  co_restaurant_id :: val
  co_restaurant_name :: val
  co_items :: "string list"
  co_item_details :: val
  co_total_amount :: val
  co_delivery_address :: string
  co_phone :: val
  co_payment_method :: val
  co_eta :: val
  co_created_at :: real
  co_distance_km :: val

definition checkout_order :: "checkout \<Rightarrow> dict" where
  "checkout_order c =
     [(''user_id'', co_user_id c),
      (''customer_name'', co_customer_name c),
      (''restaurant_id'', co_restaurant_id c),
      (''restaurant_name'', co_restaurant_name c),
      (''items'', VList (map VStr (co_items c))),
      (''item_details'', co_item_details c),
      (''total_amount'', co_total_amount c),
      (''delivery_address'', VStr (co_delivery_address c)),
      (''phone'', co_phone c),
      (''payment_method'', co_payment_method c),
      (''status'', VStr ''confirmed''),
      (''eta'', co_eta c),
      (''created_at'', VNum (co_created_at c)),
      (''distance_km'', co_distance_km c)]"

definition place_order :: "bool \<Rightarrow> real \<Rightarrow> checkout \<Rightarrow> app_state \<Rightarrow> dict option \<times> app_state" where
  "place_order w now c s =
     (if co_delivery_address c = [] then (None, s)
      else let (new_order, s1) = add_order w now (checkout_order c) s
           in (Some new_order, s1))"

section \<open>Notification (utils/notification\_service.py)\<close>

text \<open>
  \<^verbatim>\<open>send_order_status_update(order, user, status)\<close> reads the customer's phone and name
  and the order's id, restaurant name and, for \<^verbatim>\<open>out_for_delivery\<close>, eta, to build the
  text of the SMS; \<^verbatim>\<open>send_sms_notification\<close> catches every exception of the sending
  itself. Nothing is written to the store, so all that matters is whether the function
  raises: \<^verbatim>\<open>user['phone']\<close> on \<^verbatim>\<open>None\<close> is a \<^verbatim>\<open>TypeError\<close>, a missing key a
  \<^verbatim>\<open>KeyError\<close>, and \<^verbatim>\<open>format_phone_number\<close> calls \<^verbatim>\<open>c.isdigit()\<close> on the elements of the
  phone and \<^verbatim>\<open>startswith\<close> on the phone, which only a string has.
\<close>

fun format_phone_number_error :: "val \<Rightarrow> py_error option" where
  "format_phone_number_error (VStr s) = None"
| "format_phone_number_error (VList xs) = Some AttributeError"
| "format_phone_number_error (VDict d) = Some AttributeError"
| "format_phone_number_error v = Some TypeError"

definition send_order_status_update :: "dict \<Rightarrow> dict option \<Rightarrow> string \<Rightarrow> py_error option" where
  "send_order_status_update order user status =
     (case user of None \<Rightarrow> Some TypeError | Some u \<Rightarrow>
      case lookup u ''phone'' of Inl e \<Rightarrow> Some e | Inr phone \<Rightarrow>
      case format_phone_number_error phone of Some e \<Rightarrow> Some e | None \<Rightarrow>
      case lookup u ''name'' of Inl e \<Rightarrow> Some e | Inr name \<Rightarrow>
      case lookup order ''id'' of Inl e \<Rightarrow> Some e | Inr oid \<Rightarrow>
      case lookup order ''restaurant_name'' of Inl e \<Rightarrow> Some e | Inr rname \<Rightarrow>
        if status = ''out_for_delivery''
        then (case lookup order ''eta'' of Inl e \<Rightarrow> Some e | Inr eta \<Rightarrow> None)
        else None)"

section \<open>Order tracking (pages/3\_Orders\_Tracking.py)\<close>

text \<open>
  The first column of each row of the vendor's page shows the order; the reads of that
  display can raise and never write to the store. \<^verbatim>\<open>', '.join(order['items'])\<close> takes a
  list of strings, a string or a dict (its keys) and raises \<^verbatim>\<open>TypeError\<close> on anything
  else.
\<close>

fun all_strings :: "val list \<Rightarrow> bool" where
  "all_strings [] = True"
| "all_strings (VStr s # xs) = all_strings xs"
| "all_strings (v # xs) = False"

fun join_error :: "val \<Rightarrow> py_error option" where
  "join_error (VStr s) = None"
| "join_error (VDict d) = None"
| "join_error (VList xs) = (if all_strings xs then None else Some TypeError)"
| "join_error v = Some TypeError"

text \<open>
  What the page takes from its surroundings: the time formatting of the "Preparing" rows
  (\<^verbatim>\<open>time.localtime\<close> raises on a value that is no time), the detail and the completed
  views, which only display, and the outcome \<open>write_ok\<close> of the file write.
\<close>

record ui =
  localtime :: "val \<Rightarrow> py_error option"
  render_details :: "dict \<Rightarrow> py_error option"
  render_completed :: "dict list \<Rightarrow> py_error option"
  write_ok :: bool

text \<open>The display of a row under "New Orders", "Preparing Orders" and "Out for Delivery".\<close>

definition render_new :: "dict \<Rightarrow> py_error option" where
  "render_new order =
     (case lookup order ''id'' of Inl e \<Rightarrow> Some e | Inr oid \<Rightarrow>
      case lookup order ''customer_name'' of Inl e \<Rightarrow> Some e | Inr name \<Rightarrow>
      case lookup order ''items'' of Inl e \<Rightarrow> Some e | Inr items \<Rightarrow>
      case join_error items of Some e \<Rightarrow> Some e | None \<Rightarrow>
      case lookup order ''total_amount'' of Inl e \<Rightarrow> Some e | Inr amount \<Rightarrow> None)"

definition render_preparing :: "ui \<Rightarrow> dict \<Rightarrow> py_error option" where
  "render_preparing u order =
     (case lookup order ''id'' of Inl e \<Rightarrow> Some e | Inr oid \<Rightarrow>
      case lookup order ''customer_name'' of Inl e \<Rightarrow> Some e | Inr name \<Rightarrow>
      case lookup order ''items'' of Inl e \<Rightarrow> Some e | Inr items \<Rightarrow>
      case join_error items of Some e \<Rightarrow> Some e | None \<Rightarrow>
      case lookup order ''created_at'' of Inl e \<Rightarrow> Some e | Inr t \<Rightarrow> localtime u t)"

definition render_out :: "dict \<Rightarrow> py_error option" where
  "render_out order =
     (case lookup order ''id'' of Inl e \<Rightarrow> Some e | Inr oid \<Rightarrow>
      case lookup order ''customer_name'' of Inl e \<Rightarrow> Some e | Inr name \<Rightarrow>
      case lookup order ''items'' of Inl e \<Rightarrow> Some e | Inr items \<Rightarrow>
      case join_error items of Some e \<Rightarrow> Some e | None \<Rightarrow>
      case lookup order ''eta'' of Inl e \<Rightarrow> Some e | Inr eta \<Rightarrow> None)"

text \<open>
  The orders shown are objects of the store: an order is named by its position in
  \<^verbatim>\<open>data_store["orders"]\<close>, and \<^verbatim>\<open>order["status"] = ...\<close> writes to the store's object at
  that position. The state is returned in every case, with the exception raised, if any.
  The button clicked in this run of the page, with the id in its widget key:
\<close>

datatype vendor_click =
    Accept val
  | Reject val
  | ViewDetails val
  | Ready val
  | Track val
  | Deliver val
  | ViewCompleted
  | NoClick

definition set_status :: "nat \<Rightarrow> string \<Rightarrow> app_state \<Rightarrow> app_state" where
  "set_status p status s =
     s\<lparr>mem := (mem s)\<lparr>orders :=
          (orders (mem s))[p := AList.update ''status'' (VStr status) (orders (mem s) ! p)]\<rparr>\<rparr>"

text \<open>
  The body of the Accept, Reject, Ready for Delivery and Mark Delivered buttons: set the
  status, look the customer up, notify, \<^verbatim>\<open>update_order(order)\<close>, rerun. An exception of
  the lookup or of the notification leaves the new status in memory and skips the save.
\<close>

definition vendor_action :: "ui \<Rightarrow> string \<Rightarrow> nat \<Rightarrow> app_state \<Rightarrow> app_state \<times> py_error option" where
  "vendor_action u status p s =
     (let s1 = set_status p status s;
          order = orders (mem s1) ! p
      in case lookup order ''user_id'' of Inl e \<Rightarrow> (s1, Some e) | Inr uid \<Rightarrow>
         case get_user_by_id uid s1 of Inl e \<Rightarrow> (s1, Some e) | Inr customer \<Rightarrow>
         case send_order_status_update order customer status of
           Some e \<Rightarrow> (s1, Some e)
         | None \<Rightarrow>
             case update_order (write_ok u) order s1 of
               Inl e \<Rightarrow> (s1, Some e)
             | Inr (found, s2) \<Rightarrow> (s2, None))"

text \<open>
  The three loops over the sections of the vendor page. \<open>None\<close>: the loop ran through
  and the page goes on; \<open>Some r\<close>: the page ended there, by a rerun or an exception.
\<close>

fun new_orders_loop ::
  "ui \<Rightarrow> vendor_click \<Rightarrow> nat list \<Rightarrow> app_state \<Rightarrow> (app_state \<times> py_error option) option" where
  "new_orders_loop u click [] s = None"
| "new_orders_loop u click (p # ps) s =
     (let order = orders (mem s) ! p
      in case render_new order of Some e \<Rightarrow> Some (s, Some e) | None \<Rightarrow>
         case lookup order ''id'' of Inl e \<Rightarrow> Some (s, Some e) | Inr oid \<Rightarrow>
           if click = Accept oid then Some (vendor_action u ''preparing'' p s)
           else if click = Reject oid then Some (vendor_action u ''cancelled'' p s)
           else new_orders_loop u click ps s)"

fun preparing_loop ::
  "ui \<Rightarrow> vendor_click \<Rightarrow> nat list \<Rightarrow> app_state \<Rightarrow> (app_state \<times> py_error option) option" where
  "preparing_loop u click [] s = None"
| "preparing_loop u click (p # ps) s =
     (let order = orders (mem s) ! p
      in case render_preparing u order of Some e \<Rightarrow> Some (s, Some e) | None \<Rightarrow>
         case lookup order ''id'' of Inl e \<Rightarrow> Some (s, Some e) | Inr oid \<Rightarrow>
         case (if click = ViewDetails oid then render_details u order else None) of
           Some e \<Rightarrow> Some (s, Some e)
         | None \<Rightarrow>
             if click = Ready oid then Some (vendor_action u ''out_for_delivery'' p s)
             else preparing_loop u click ps s)"

fun out_for_delivery_loop ::
  "ui \<Rightarrow> vendor_click \<Rightarrow> nat list \<Rightarrow> app_state \<Rightarrow> (app_state \<times> py_error option) option" where
  "out_for_delivery_loop u click [] s = None"
| "out_for_delivery_loop u click (p # ps) s =
     (let order = orders (mem s) ! p
      in case render_out order of Some e \<Rightarrow> Some (s, Some e) | None \<Rightarrow>
         case lookup order ''id'' of Inl e \<Rightarrow> Some (s, Some e) | Inr oid \<Rightarrow>
         case (if click = Track oid then render_details u order else None) of
           Some e \<Rightarrow> Some (s, Some e)
         | None \<Rightarrow>
             if click = Deliver oid then Some (vendor_action u ''delivered'' p s)
             else out_for_delivery_loop u click ps s)"

text \<open>
  \<^verbatim>\<open>[o for o in orders if P(o[k])]\<close> over positions: the first order without the key
  raises \<^verbatim>\<open>KeyError\<close>.
\<close>

fun select_by :: "string \<Rightarrow> (val \<Rightarrow> bool) \<Rightarrow> dict list \<Rightarrow> nat list \<Rightarrow> py_error + nat list" where
  "select_by k P os [] = Inr []"
| "select_by k P os (p # ps) =
     (case lookup (os ! p) k of
        Inl e \<Rightarrow> Inl e
      | Inr v \<Rightarrow> (case select_by k P os ps of
                    Inl e \<Rightarrow> Inl e
                  | Inr qs \<Rightarrow> Inr (if P v then p # qs else qs)))"

definition show_vendor_tracking ::
  "ui \<Rightarrow> vendor_click \<Rightarrow> nat list \<Rightarrow> app_state \<Rightarrow> app_state \<times> py_error option" where
  "show_vendor_tracking u click ps s =
     (let os = orders (mem s)
      in case select_by ''status'' (\<lambda>v. v = VStr ''confirmed'') os ps of
           Inl e \<Rightarrow> (s, Some e) | Inr new_orders \<Rightarrow>
         case select_by ''status'' (\<lambda>v. v = VStr ''preparing'') os ps of
           Inl e \<Rightarrow> (s, Some e) | Inr preparing_orders \<Rightarrow>
         case select_by ''status'' (\<lambda>v. v = VStr ''out_for_delivery'') os ps of
           Inl e \<Rightarrow> (s, Some e) | Inr out_for_delivery_orders \<Rightarrow>
         case select_by ''status'' (\<lambda>v. v = VStr ''delivered'' \<or> v = VStr ''cancelled'') os ps of
           Inl e \<Rightarrow> (s, Some e) | Inr completed_orders \<Rightarrow>
         if ps = [] then (s, None)
         else case new_orders_loop u click new_orders s of Some r \<Rightarrow> r | None \<Rightarrow>
              case preparing_loop u click preparing_orders s of Some r \<Rightarrow> r | None \<Rightarrow>
              case out_for_delivery_loop u click out_for_delivery_orders s of
                Some r \<Rightarrow> r
              | None \<Rightarrow>
                  if completed_orders \<noteq> [] \<and> click = ViewCompleted
                  then (s, render_completed u (map ((!) os) completed_orders))
                  else (s, None))"

text \<open>
  The vendor branch of \<^verbatim>\<open>main\<close>: \<^verbatim>\<open>get_orders_by_restaurant(restaurant_id)\<close>, then
  \<^verbatim>\<open>show_vendor_tracking\<close>.
\<close>

definition vendor_page :: "ui \<Rightarrow> vendor_click \<Rightarrow> val \<Rightarrow> app_state \<Rightarrow> app_state \<times> py_error option" where
  "vendor_page u click rid s =
     (case select_by ''restaurant_id'' (\<lambda>v. v = rid) (orders (mem s))
             [0 ..< length (orders (mem s))] of
        Inl e \<Rightarrow> (s, Some e)
      | Inr ps \<Rightarrow> show_vendor_tracking u click ps s)"

text \<open>
  The start of \<^verbatim>\<open>display_order_tracking(order)\<close> on the customer's page, for the order at
  position \<open>p\<close>: \<open>rnd\<close> is the value of \<^verbatim>\<open>random.random()\<close>, \<open>simulated\<close> says whether
  \<^verbatim>\<open>"simulate_status"\<close> is in the session. The status written here is not saved to the
  file by this page.
\<close>

definition display_order_tracking ::
  "real \<Rightarrow> bool \<Rightarrow> nat \<Rightarrow> app_state \<Rightarrow> app_state \<times> py_error option" where
  "display_order_tracking rnd simulated p s =
     (let order = orders (mem s) ! p
      in case lookup order ''restaurant_id'' of Inl e \<Rightarrow> (s, Some e) | Inr rid \<Rightarrow>
         case get_restaurant_by_id rid s of Inl e \<Rightarrow> (s, Some e) | Inr restaurant \<Rightarrow>
         case lookup order ''id'' of Inl e \<Rightarrow> (s, Some e) | Inr oid \<Rightarrow>
         case lookup order ''restaurant_name'' of Inl e \<Rightarrow> (s, Some e) | Inr rname \<Rightarrow>
         case lookup order ''status'' of Inl e \<Rightarrow> (s, Some e) | Inr status \<Rightarrow>
           if status = VStr ''confirmed''
           then (if rnd < 1 / 10 \<and> \<not> simulated
                 then (set_status p ''preparing'' s, None) else (s, None))
           else if status = VStr ''preparing''
           then (if rnd < 1 / 10 \<and> \<not> simulated
                 then (set_status p ''out_for_delivery'' s, None) else (s, None))
           else (s, None))"

section \<open>The order lifecycle as a transition system\<close>

text \<open>
  The operations of one session that create or change orders: checkout, a run of the
  vendor's tracking page with a click, a run of the customer's tracking page for one of
  the store's orders. \<open>Other d saved\<close> stands for every operation on the other three
  collections (login, registration, profile, restaurant and menu updates): it may change
  them in any way (to those of \<open>d\<close>), leaves the session's orders alone and, when it saves
  and the write succeeds, writes the session's whole store to the file, as
  \<^verbatim>\<open>_save_data_to_file\<close> does.
\<close>

datatype action =
    PlaceOrder bool real checkout
  | VendorPage ui vendor_click val
  | TrackOrder real bool nat
  | Other data_store bool

fun step :: "action \<Rightarrow> app_state \<Rightarrow> app_state" where
  "step (PlaceOrder w now c) s = snd (place_order w now c s)"
| "step (VendorPage u click rid) s = fst (vendor_page u click rid s)"
| "step (TrackOrder rnd simulated p) s =
     (if p < length (orders (mem s)) then fst (display_order_tracking rnd simulated p s) else s)"
| "step (Other d saved) s =
     save_data_to_file saved (s\<lparr>mem := d\<lparr>orders := orders (mem s)\<rparr>\<rparr>)"

text \<open>
  \<^verbatim>\<open>st.session_state\<close> belongs to one browser session: every session has its own
  \<^verbatim>\<open>data_store\<close>, loaded from the file once, when the session starts
  (\<^verbatim>\<open>initialize_data\<close>; an unreadable file gives the empty store), and never read again.
  All sessions share the file, and every save writes the saving session's whole store to
  it. The system is the file and the stores of the sessions started so far; an operation
  runs in one session, on that session's store and the file.
\<close>

record system =
  data_file :: data_store
  sessions :: "data_store list"

datatype session_action =
    StartSession bool
  | InSession nat action

definition session_state :: "nat \<Rightarrow> system \<Rightarrow> app_state" where
  "session_state i S = \<lparr>mem = sessions S ! i, disk = data_file S\<rparr>"

fun sys_step :: "session_action \<Rightarrow> system \<Rightarrow> system" where
  "sys_step (StartSession readable) S =
     S\<lparr>sessions := sessions S @ [if readable then data_file S else empty_store]\<rparr>"
| "sys_step (InSession i a) S =
     (if i < length (sessions S)
      then let s' = step a (session_state i S)
           in \<lparr>data_file = disk s', sessions = (sessions S)[i := mem s']\<rparr>
      else S)"

fun sys_run :: "session_action list \<Rightarrow> system \<Rightarrow> system" where
  "sys_run [] S = S"
| "sys_run (a # as) S = sys_run as (sys_step a S)"

text \<open>
  The states the application reaches from a file without orders, before any session has
  started.
\<close>

inductive reachable :: "system \<Rightarrow> bool" where
  initial: "orders (data_file S) = [] \<Longrightarrow> sessions S = [] \<Longrightarrow> reachable S"
| after: "reachable S \<Longrightarrow> reachable (sys_step a S)"

text \<open>The statuses and the edges of the lifecycle, for the statements.\<close>

definition order_statuses :: "string list" where
  "order_statuses =
     [''confirmed'', ''preparing'', ''out_for_delivery'', ''delivered'', ''cancelled'']"

definition status_edges :: "(string \<times> string) list" where
  "status_edges =
     [(''confirmed'', ''preparing''), (''preparing'', ''out_for_delivery''),
      (''out_for_delivery'', ''delivered''), (''confirmed'', ''cancelled'')]"

definition follows_chain :: "val option \<Rightarrow> val option \<Rightarrow> bool" where
  "follows_chain a b =
     (a = b \<or> (\<exists>e\<in>set status_edges. a = Some (VStr (fst e)) \<and> b = Some (VStr (snd e))))"

text \<open>
  The invariant of an orders collection: the order at position \<open>k\<close> has the id the
  store gave it, one of the five statuses, a restaurant id, and the fields that the row
  under "New Orders" displays. \<open>moved\<close> relates the orders before and after an operation
  that changes at most one status along an edge.
\<close>

definition wf_order :: "nat \<Rightarrow> dict \<Rightarrow> bool" where
  "wf_order k ord =
     (map_of ord ''id'' = Some (VStr (''order'' @ str_nat (Suc k)))
      \<and> (\<exists>st\<in>set order_statuses. map_of ord ''status'' = Some (VStr st))
      \<and> map_of ord ''restaurant_id'' \<noteq> None
      \<and> render_new ord = None)"

definition wf_orders :: "dict list \<Rightarrow> bool" where
  "wf_orders os = (\<forall>k<length os. wf_order k (os ! k))"

definition moved :: "dict list \<Rightarrow> dict list \<Rightarrow> bool" where
  "moved os os' =
     (os' = os
      \<or> (\<exists>p<length os. \<exists>e\<in>set status_edges.
            map_of (os ! p) ''status'' = Some (VStr (fst e))
            \<and> os' = os[p := AList.update ''status'' (VStr (snd e)) (os ! p)]))"

text \<open>
  Example data for the instances below: a file that holds one registered customer and no
  orders, a checkout of that customer at restaurant \<open>rest1\<close>, and a page whose time
  formatting and detail views never raise and whose writes succeed.
\<close>

definition example_checkout :: checkout where
  "example_checkout =
     \<lparr>co_user_id = VStr ''7'', co_customer_name = VStr ''Asha'',
      co_restaurant_id = VStr ''rest1'', co_restaurant_name = VStr ''Dosa Hut'',
      co_items = [''Idli x1''], co_item_details = VList [],
      co_total_amount = VNum 40, co_delivery_address = ''12 MG Road'',
      co_phone = VStr ''98'', co_payment_method = VStr ''UPI'',
      co_eta = VStr ''13 minutes'', co_created_at = 0, co_distance_km = VNum 1\<rparr>"

definition example_store :: "dict list \<Rightarrow> data_store" where
  "example_store os =
     \<lparr>users = [[(''id'', VStr ''7''), (''name'', VStr ''Asha''), (''phone'', VStr ''98'')]],
      restaurants = [], menu_items = [], orders = os\<rparr>"

definition example_system :: system where
  "example_system = \<lparr>data_file = example_store [], sessions = []\<rparr>"

text \<open>The order of that checkout as the store holds it, with its number and status.\<close>

definition example_order :: "string \<Rightarrow> nat \<Rightarrow> dict" where
  "example_order status n =
     AList.update ''status'' (VStr status)
       (AList.update ''id'' (VStr (''order'' @ str_nat n)) (checkout_order example_checkout))"

definition quiet_ui :: ui where
  "quiet_ui =
     \<lparr>localtime = (\<lambda>x. None), render_details = (\<lambda>x. None), render_completed = (\<lambda>x. None),
      write_ok = True\<rparr>"

text \<open>
  The customer's session starts and places an order (which gets the id \<open>order1\<close>); then
  the vendor's session starts and finds that order in the file.
\<close>

definition order_placed :: system where
  "order_placed =
     sys_run [StartSession True, InSession 0 (PlaceOrder True 0 example_checkout),
              StartSession True] example_system"

text \<open>
  The vendor accepts the order in the second session; then the customer, whose session
  has been open all the time, places another order.
\<close>

definition accepted :: system where
  "accepted =
     sys_step (InSession 1 (VendorPage quiet_ui (Accept (VStr ''order1'')) (VStr ''rest1'')))
       order_placed"

definition accepted_then_customer_orders_again :: system where
  "accepted_then_customer_orders_again =
     sys_step (InSession 0 (PlaceOrder True 0 example_checkout)) accepted"

text \<open>
  The vendor rejects the order in the second session; the customer places another order
  from the first session; a third session starts, in which the vendor accepts the order.
\<close>

definition rejected :: system where
  "rejected =
     sys_step (InSession 1 (VendorPage quiet_ui (Reject (VStr ''order1'')) (VStr ''rest1'')))
       order_placed"

definition rejected_then_accepted_in_new_session :: system where
  "rejected_then_accepted_in_new_session =
     sys_run [InSession 0 (PlaceOrder True 0 example_checkout), StartSession True,
              InSession 2 (VendorPage quiet_ui (Accept (VStr ''order1'')) (VStr ''rest1''))]
       rejected"

text \<open>The cart invariant: all lines of the cart come from one restaurant.\<close>

definition one_restaurant :: "cart_item list \<Rightarrow> bool" where
  "one_restaurant cart = (\<forall>x\<in>set cart. \<forall>y\<in>set cart. restaurant_id x = restaurant_id y)"

section \<open>Properties of the geo utility\<close>

lemma haversine_a_alt:
  "haversine_a x u y v =
     1 / 2 - cos (x - y) * (1 - (sin ((v - u) / 2))\<^sup>2) / 2
           + cos (x + y) * (sin ((v - u) / 2))\<^sup>2 / 2"
proof -
  have h: "2 * ((y - x) / 2) = y - x"
    by simp
  have d: "cos (y - x) = 1 - 2 * (sin ((y - x) / 2))\<^sup>2"
    using cos_double_sin [of "(y - x) / 2"] unfolding h .
  have n: "- (x - y) = y - x"
    by simp
  have m: "cos (y - x) = cos (x - y)"
    using cos_minus [of "x - y"] unfolding n .
  have p: "cos x * cos y = (cos (x - y) + cos (x + y)) / 2"
    by (simp add: cos_diff cos_add)
  have e: "(sin ((y - x) / 2))\<^sup>2 = (1 - cos (x - y)) / 2"
    using d m by simp
  show ?thesis
    unfolding haversine_a_def Let_def p e by (simp add: field_simps)
qed

lemma haversine_a_bounds: "0 \<le> haversine_a x u y v \<and> haversine_a x u y v \<le> 1"
proof -
  define s where "s = (sin ((v - u) / 2))\<^sup>2"
  define c1 where "c1 = cos (x - y)"
  define c2 where "c2 = cos (x + y)"
  have s0: "0 \<le> s" and s1: "s \<le> 1"
    unfolding s_def by (simp_all add: abs_square_le_1)
  have c1b: "- 1 \<le> c1" "c1 \<le> 1" and c2b: "- 1 \<le> c2" "c2 \<le> 1"
    unfolding c1_def c2_def by simp_all
  have a: "haversine_a x u y v = 1 / 2 - c1 * (1 - s) / 2 + c2 * s / 2"
    unfolding s_def c1_def c2_def by (rule haversine_a_alt)
  have u1: "c1 * (1 - s) \<le> 1 * (1 - s)"
    using c1b s1 by (intro mult_right_mono) simp_all
  have l1: "- 1 * (1 - s) \<le> c1 * (1 - s)"
    using c1b s1 by (intro mult_right_mono) simp_all
  have u2: "c2 * s \<le> 1 * s"
    using c2b s0 by (intro mult_right_mono) simp_all
  have l2: "- 1 * s \<le> c2 * s"
    using c2b s0 by (intro mult_right_mono) simp_all
  show ?thesis
    unfolding a using u1 l1 u2 l2 by simp
qed

lemma haversine_a_sym: "haversine_a x u y v = haversine_a y v x u"
proof -
  have n: "- ((y - x) / 2) = (x - y) / 2" "- ((v - u) / 2) = (u - v) / 2"
    by (simp_all add: field_simps)
  have "sin ((x - y) / 2) = - sin ((y - x) / 2)"
    using sin_minus [of "(y - x) / 2"] unfolding n .
  moreover have "sin ((u - v) / 2) = - sin ((v - u) / 2)"
    using sin_minus [of "(v - u) / 2"] unfolding n .
  ultimately show ?thesis
    unfolding haversine_a_def Let_def by simp
qed

lemma calculate_distance_eq:
  "calculate_distance lat1 lon1 lat2 lon2 =
     Inr (2 * arcsin (sqrt (haversine_a (radians lat1) (radians lon1)
                                        (radians lat2) (radians lon2))) * 6371)"
proof -
  let ?a = "haversine_a (radians lat1) (radians lon1) (radians lat2) (radians lon2)"
  have b: "0 \<le> ?a" "?a \<le> 1"
    using haversine_a_bounds by blast+
  have n1: "\<not> ?a < 0"
    using b by simp
  have "0 \<le> sqrt ?a" "sqrt ?a \<le> 1"
    using b by simp_all
  then have n2: "\<not> (sqrt ?a < - 1 \<or> 1 < sqrt ?a)"
    by linarith
  show ?thesis
    unfolding calculate_distance_def Let_def using n1 n2 by simp
qed

text \<open>
  C7. The Haversine distance is symmetric in its two points, the distance of a point to
  itself is 0, and the function always returns (never raises) a non-negative number of
  kilometres, for all coordinates in degrees.
\<close>

theorem calculate_distance_symmetric_zero_nonneg:
  "calculate_distance lat1 lon1 lat2 lon2 = calculate_distance lat2 lon2 lat1 lon1
   \<and> calculate_distance lat1 lon1 lat1 lon1 = Inr 0
   \<and> (\<exists>d. calculate_distance lat1 lon1 lat2 lon2 = Inr d \<and> 0 \<le> d)"
proof -
  let ?a = "haversine_a (radians lat1) (radians lon1) (radians lat2) (radians lon2)"
  have sym: "calculate_distance lat1 lon1 lat2 lon2 = calculate_distance lat2 lon2 lat1 lon1"
    unfolding calculate_distance_def
    by (simp only: haversine_a_sym [of "radians lat1" "radians lon1"])
  have zero: "calculate_distance lat1 lon1 lat1 lon1 = Inr 0"
    unfolding calculate_distance_eq by (simp add: haversine_a_def)
  have b: "0 \<le> ?a" "?a \<le> 1"
    using haversine_a_bounds by blast+
  have "0 \<le> sqrt ?a" "sqrt ?a \<le> 1"
    using b by simp_all
  then have "arcsin 0 \<le> arcsin (sqrt ?a)"
    by (intro arcsin_le_arcsin) simp_all
  then have "0 \<le> 2 * arcsin (sqrt ?a) * 6371"
    by simp
  then have "\<exists>d. calculate_distance lat1 lon1 lat2 lon2 = Inr d \<and> 0 \<le> d"
    unfolding calculate_distance_eq by simp
  with sym zero show ?thesis by blast
qed

text \<open>The rounding of one operation, and the exponent search, meet their descriptions.\<close>

lemma round_half_even_near:
  "\<bar>of_int (round_half_even y) - y\<bar> \<le> 1 / 2"
proof -
  define F where "F = real_of_int \<lfloor>y\<rfloor>"
  have lo: "F \<le> y" and hi: "y < F + 1"
    unfolding F_def by linarith+
  have "of_int (round_half_even y) = F \<and> y - F \<le> 1 / 2
      \<or> of_int (round_half_even y) = F + 1 \<and> 1 / 2 \<le> y - F"
    unfolding F_def by (auto simp: round_half_even_def Let_def)
  then show ?thesis
    using lo hi by auto
qed

lemma round_half_even_nonneg: "0 \<le> y \<Longrightarrow> 0 \<le> round_half_even y"
  by (auto simp: round_half_even_def Let_def)

lemma two_powi_Suc: "(2::real) powi (k + 1) = 2 * 2 powi k"
  by (simp add: power_int_add)

lemma two_powi_pred: "(2::real) powi (k - 1) = 2 powi k / 2"
  by (simp add: power_int_diff)

lemma binade_up_spec:
  assumes "1 \<le> x" and "x < 2 ^ n"
  shows "0 \<le> binade_up n x \<and> 2 powi (binade_up n x) \<le> x \<and> x < 2 powi (binade_up n x + 1)"
  using assms
proof (induction n arbitrary: x)
  case 0
  then show ?case by simp
next
  case (Suc n)
  show ?case
  proof (cases "x < 2")
    case True
    then show ?thesis
      using Suc.prems by simp
  next
    case False
    have "1 \<le> x / 2" "x / 2 < 2 ^ n"
      using False Suc.prems by simp_all
    from Suc.IH [OF this]
    have ih: "0 \<le> binade_up n (x / 2)" "2 powi (binade_up n (x / 2)) \<le> x / 2"
      "x / 2 < 2 powi (binade_up n (x / 2) + 1)"
      by blast+
    have k: "binade_up (Suc n) x = binade_up n (x / 2) + 1"
      using False by simp
    have "2 powi (binade_up n (x / 2) + 1) \<le> x"
      using ih(2) unfolding two_powi_Suc by simp
    moreover have "x < 2 powi (binade_up n (x / 2) + 1 + 1)"
      using ih(3) unfolding two_powi_Suc [of "binade_up n (x / 2) + 1"] by simp
    ultimately show ?thesis
      unfolding k using ih(1) by simp
  qed
qed

lemma binade_down_spec:
  assumes "x < 2" and "2 powi (- int n) \<le> x"
  shows "2 powi (binade_down n x) \<le> x \<and> x < 2 powi (binade_down n x + 1)"
  using assms
proof (induction n arbitrary: x)
  case 0
  then show ?case by simp
next
  case (Suc n)
  show ?case
  proof (cases "1 \<le> x")
    case True
    then show ?thesis
      using Suc.prems by simp
  next
    case False
    have n1: "- int (Suc n) = - int n - 1"
      by simp
    have e: "(2::real) powi (- int (Suc n)) = 2 powi (- int n) / 2"
      unfolding n1 by (rule two_powi_pred)
    have "x * 2 < 2" "2 powi (- int n) \<le> x * 2"
      using False Suc.prems(2) unfolding e by simp_all
    from Suc.IH [OF this]
    have ih: "2 powi (binade_down n (x * 2)) \<le> x * 2"
      "x * 2 < 2 powi (binade_down n (x * 2) + 1)"
      by blast+
    have k: "binade_down (Suc n) x = binade_down n (x * 2) - 1"
      using False by simp
    have "2 powi (binade_down n (x * 2) - 1) \<le> x"
      using ih(1) unfolding two_powi_pred by simp
    moreover have "x < 2 powi (binade_down n (x * 2))"
      using ih(2) unfolding two_powi_Suc by simp
    then have "x < 2 powi (binade_down n (x * 2) - 1 + 1)"
      by simp
    ultimately show ?thesis
      unfolding k by blast
  qed
qed

lemma binade_down_small:
  assumes "x < 2 powi (- int n)"
  shows "binade_down n x = - int n"
  using assms
proof (induction n arbitrary: x)
  case 0
  then show ?case by simp
next
  case (Suc n)
  have n1: "- int (Suc n) = - int n - 1"
    by simp
  have e: "(2::real) powi (- int (Suc n)) = 2 powi (- int n) / 2"
    unfolding n1 by (rule two_powi_pred)
  have "(2::real) powi (- int n) \<le> 1"
    by (simp add: power_int_def inverse_eq_divide power_le_one field_simps)
  then have x1: "x < 1"
    using Suc.prems unfolding e by simp
  have "x * 2 < 2 powi (- int n)"
    using Suc.prems unfolding e by simp
  from Suc.IH [OF this] show ?case
    using x1 by simp
qed

lemma two_powi_less_exp:
  assumes "(2::real) powi m \<le> x" and "x < 2 powi n"
  shows "m < n"
proof (rule ccontr)
  assume "\<not> m < n"
  then have "n \<le> m"
    by simp
  then have "(2::real) powi n \<le> 2 powi m"
    by (intro power_int_increasing) simp_all
  then show False
    using assms by simp
qed

lemma binade_spec:
  assumes "2 powi (- 1022) \<le> a" and "a < 2 ^ 1023"
  shows "- 1022 \<le> binade a \<and> binade a \<le> 1022
       \<and> 2 powi (binade a) \<le> a \<and> a < 2 powi (binade a + 1)"
proof -
  have b: "2 powi (binade a) \<le> a \<and> a < 2 powi (binade a + 1)"
  proof (cases "1 \<le> a")
    case True
    have "a < 2 ^ 1024"
      using assms(2) by simp
    from binade_up_spec [OF True this] show ?thesis
      using True by (simp add: binade_def)
  next
    case False
    have "(2::real) powi (- int 1075) \<le> 2 powi (- 1022)"
      by (intro power_int_increasing) simp_all
    then have "2 powi (- int 1075) \<le> a"
      using assms(1) by simp
    moreover have "a < 2"
      using False by simp
    ultimately show ?thesis
      using binade_down_spec [of a 1075] False by (simp add: binade_def)
  qed
  have "(2::real) powi (- 1022) \<le> a" "a < 2 powi (binade a + 1)"
    using assms(1) b by simp_all
  then have "- 1022 < binade a + 1"
    by (rule two_powi_less_exp)
  moreover have "2 powi (binade a) \<le> a" "a < 2 powi 1023"
    using assms(2) b by simp_all
  then have "binade a < 1023"
    by (rule two_powi_less_exp)
  ultimately show ?thesis
    using b by simp
qed

lemma binade_subnormal:
  assumes "0 < a" and "a < 2 powi (- 1022)"
  shows "binade a \<le> - 1022"
proof -
  have "(2::real) powi (- 1022) \<le> 1"
    by (simp add: power_int_def inverse_eq_divide power_le_one field_simps)
  then have a1: "a < 1"
    using assms(2) by simp
  show ?thesis
  proof (cases "2 powi (- int 1075) \<le> a")
    case True
    from binade_down_spec [of a 1075] True a1
    have "2 powi (binade_down 1075 a) \<le> a"
      by simp
    from two_powi_less_exp [OF this assms(2)] show ?thesis
      using a1 by (simp add: binade_def)
  next
    case False
    then have "a < 2 powi (- int 1075)"
      by simp
    from binade_down_small [OF this] show ?thesis
      using a1 by (simp add: binade_def)
  qed
qed

text \<open>The rounding error of one operation, away from overflow.\<close>

lemma to_double_near:
  assumes "0 \<le> a" and "a < 2 ^ 1023"
  shows "\<exists>r. to_double a = Some r \<and> 0 \<le> r \<and> \<bar>r - a\<bar> \<le> a / 2 ^ 53 + 1 / 2 ^ 1075"
proof (cases "a = 0")
  case True
  then show ?thesis
    by (simp add: to_double_def)
next
  case False
  then have pos: "0 < a"
    using assms(1) by simp
  define e where "e = max (binade a) (- 1022)"
  define ulp :: real where "ulp = 2 powi (e - 52)"
  define r where "r = of_int (round_half_even (a / ulp)) * ulp"
  have up: "0 < ulp"
    by (simp add: ulp_def)
  have "r - a = (of_int (round_half_even (a / ulp)) - a / ulp) * ulp"
    using up by (simp add: r_def field_simps)
  then have "\<bar>r - a\<bar> = \<bar>of_int (round_half_even (a / ulp)) - a / ulp\<bar> * \<bar>ulp\<bar>"
    by (simp only: abs_mult)
  also have "\<dots> = \<bar>of_int (round_half_even (a / ulp)) - a / ulp\<bar> * ulp"
    using up by simp
  also have "\<dots> \<le> 1 / 2 * ulp"
    using round_half_even_near [of "a / ulp"] up by (intro mult_right_mono) simp_all
  finally have err: "\<bar>r - a\<bar> \<le> ulp / 2"
    by simp
  have r0: "0 \<le> r"
    unfolding r_def using up pos round_half_even_nonneg [of "a / ulp"] by simp
  have bound: "ulp / 2 \<le> a / 2 ^ 53 + 1 / 2 ^ 1075"
  proof (cases "2 powi (- 1022) \<le> a")
    case True
    from binade_spec [OF True assms(2)]
    have k: "- 1022 \<le> binade a" "2 powi (binade a) \<le> a"
      by blast+
    then have "e = binade a"
      by (simp add: e_def)
    then have "ulp = 2 powi (binade a) / 2 ^ 52"
      by (simp add: ulp_def power_int_diff)
    then have "ulp / 2 \<le> a / 2 ^ 53"
      using k(2) by simp
    then show ?thesis
      by simp
  next
    case False
    then have "binade a \<le> - 1022"
      using binade_subnormal [OF pos] by simp
    then have "e = - 1022"
      by (simp add: e_def)
    then have "ulp = 2 powi (- 1074)"
      by (simp add: ulp_def)
    moreover have "(2::real) powi (- 1074) = 1 / 2 ^ 1074"
      using power_int_minus_divide [of "2::real" 1074] by simp
    ultimately have "ulp / 2 = 1 / 2 ^ 1075"
      by simp
    then show ?thesis
      using assms(1) by simp
  qed
  have "r \<le> a + ulp / 2"
    using err by linarith
  also have "\<dots> \<le> a + (a / 2 ^ 53 + 1 / 2 ^ 1075)"
    using bound by simp
  also have "\<dots> < 2 ^ 1024"
    using assms by simp
  finally have nov: "\<not> 2 powi 1024 \<le> r"
    by simp
  have nova: "\<not> 2 powi 1024 \<le> \<bar>a\<bar>"
    using assms by simp
  have "to_double a = Some r"
    unfolding to_double_def Let_def
    using nov nova pos by (simp add: r_def ulp_def e_def)
  with r0 err bound show ?thesis
    by simp
qed

lemma to_double_near_small:
  assumes "0 \<le> a" and "a \<le> 1125899906842624"
  shows "\<exists>r. to_double a = Some r \<and> 0 \<le> r
           \<and> \<bar>r - a\<bar> \<le> a / 9007199254740992 + 1 / 1152921504606846976"
proof -
  have "a < 2 ^ 1023"
    using assms(2) by simp
  from to_double_near [OF assms(1) this]
  obtain r where r: "to_double a = Some r" "0 \<le> r" "\<bar>r - a\<bar> \<le> a / 2 ^ 53 + 1 / 2 ^ 1075"
    by blast
  have "(1::real) / 2 ^ 1075 \<le> 1 / 1152921504606846976"
    by simp
  moreover have "a / 2 ^ 53 = a / 9007199254740992"
    by simp
  ultimately have "\<bar>r - a\<bar> \<le> a / 9007199254740992 + 1 / 1152921504606846976"
    using r(3) by linarith
  with r(1,2) show ?thesis
    by blast
qed

lemma calculate_eta_value:
  assumes d: "0 \<le> d" and s: "0 < s" and m: "d / s * 60 \<le> 2 ^ 40"
    and b: "b = (if d < 5 then 10 else 15)"
  shows "\<exists>t. float_add (float_mul (float_div d s) 60) b = Some t \<and> 0 \<le> t
           \<and> \<bar>t - (d / s * 60 + b)\<bar> \<le> 1 / 1000
           \<and> calculate_eta d s = Inr \<lfloor>t\<rfloor>"
proof -
  define x where "x = d / s"
  have x0: "0 \<le> x"
    using d s by (simp add: x_def)
  have xm: "x * 60 \<le> 1099511627776"
    using m by (simp add: x_def)
  have b0: "0 \<le> b" "b \<le> 15"
    using b by simp_all
  have "x \<le> 1125899906842624"
    using xm x0 by linarith
  from to_double_near_small [OF x0 this]
  obtain th where th: "to_double x = Some th" "0 \<le> th" "\<bar>th - x\<bar> \<le> x / 9007199254740992 + 1 / 1152921504606846976"
    by blast
  have thb: "th * 60 \<le> 1099511627777"
    using th(3) xm x0 by linarith
  have "0 \<le> th * 60" "th * 60 \<le> 1125899906842624"
    using th(2) thb by linarith+
  from to_double_near_small [OF this]
  obtain tm where tm: "to_double (th * 60) = Some tm" "0 \<le> tm"
    "\<bar>tm - th * 60\<bar> \<le> th * 60 / 9007199254740992 + 1 / 1152921504606846976"
    by blast
  have tmb: "tm \<le> 1099511627778"
    using tm(3) thb th(2) by linarith
  have "0 \<le> tm + b" "tm + b \<le> 1125899906842624"
    using tm(2) tmb b0 by linarith+
  from to_double_near_small [OF this]
  obtain t where t: "to_double (tm + b) = Some t" "0 \<le> t"
    "\<bar>t - (tm + b)\<bar> \<le> (tm + b) / 9007199254740992 + 1 / 1152921504606846976"
    by blast
  have e1: "th - x \<le> x / 9007199254740992 + 1 / 1152921504606846976"
    "x - th \<le> x / 9007199254740992 + 1 / 1152921504606846976"
    using th(3) by linarith+
  have e2: "tm - th * 60 \<le> th * 60 / 9007199254740992 + 1 / 1152921504606846976"
    "th * 60 - tm \<le> th * 60 / 9007199254740992 + 1 / 1152921504606846976"
    using tm(3) by linarith+
  have e3: "t - (tm + b) \<le> (tm + b) / 9007199254740992 + 1 / 1152921504606846976"
    "tm + b - t \<le> (tm + b) / 9007199254740992 + 1 / 1152921504606846976"
    using t(3) by linarith+
  have d3: "(tm + b) / 9007199254740992 = tm / 9007199254740992 + b / 9007199254740992"
    by (rule add_divide_distrib)
  have "t - (x * 60 + b) \<le> 1 / 1000"
    using e1(1) e2(1) e3(1) tmb thb xm b0 unfolding d3 by linarith
  moreover have "x * 60 + b - t \<le> 1 / 1000"
    using e1(2) e2(2) e3(2) tmb thb xm b0 unfolding d3 by linarith
  ultimately have e: "\<bar>t - (x * 60 + b)\<bar> \<le> 1 / 1000"
    by linarith
  have f: "float_add (float_mul (float_div d s) 60) b = Some t"
    using th(1) tm(1) t(1) by (simp add: float_div_def float_mul_def float_add_def x_def)
  have "calculate_eta d s = int_of_float (float_add (float_mul (float_div d s) 60) b)"
    using s b by (simp add: calculate_eta_def Let_def)
  then have "calculate_eta d s = Inr \<lfloor>t\<rfloor>"
    using f t(2) by (simp add: int_of_float_def py_int_def)
  with f t(2) e show ?thesis
    unfolding x_def by blast
qed

lemma binade_up_numeral:
  "binade_up (numeral k) x = (if x < 2 then 0 else binade_up (pred_numeral k) (x / 2) + 1)"
  by (simp add: numeral_eq_Suc)

lemma binade_down_numeral:
  "binade_down (numeral k) x = (if 1 \<le> x then 0 else binade_down (pred_numeral k) (x * 2) - 1)"
  by (simp add: numeral_eq_Suc)

lemmas float_eval =
  calculate_eta_def float_div_def float_mul_def float_add_def int_of_float_def to_double_def
  Let_def binade_def binade_up_numeral binade_down_numeral round_half_even_def py_int_def

lemma double_4_9: "to_double (49 / 10) = Some (2758454771764429 / 562949953421312)"
  by (simp add: float_eval)

lemma eta_4_9: "calculate_eta (2758454771764429 / 562949953421312) 25 = Inr 21"
  by (simp add: float_eval)

lemma eta_5: "calculate_eta 5 25 = Inr 27"
  by (simp add: float_eval)

text \<open>
  C3 (amended). For a non-negative distance and a positive speed, \<open>calculate_eta\<close> is
  the truncation of the double that the three operations compute for
  \<open>distance / speed * 60\<close> plus the buffer (10 below 5 km, 15 from 5 km on), the buffer
  being added before the truncation, and \<^verbatim>\<open>OverflowError\<close> when that double is an infinity.
  As long as \<open>distance / speed * 60\<close> is at most \<open>2 ^ 40\<close> the function returns an
  integer, the double is within 0.001 of the exact value, and so the result is the
  truncation of the exact value whenever that value is at least 0.001 away from the
  integers next to it. The double nearest to 4.9 gets the 10-minute buffer (21 minutes at
  speed 25) and the distance 5.0 the 15-minute one (27 minutes).
\<close>

theorem calculate_eta_buffer:
  assumes "0 \<le> d" and "0 < s"
  shows "calculate_eta d s
           = int_of_float (float_add (float_mul (float_div d s) 60) (if d < 5 then 10 else 15))
       \<and> (d / s * 60 \<le> 2 ^ 40 \<longrightarrow>
            (\<exists>t. float_add (float_mul (float_div d s) 60) (if d < 5 then 10 else 15) = Some t
                \<and> \<bar>t - (d / s * 60 + (if d < 5 then 10 else 15))\<bar> \<le> 1 / 1000
                \<and> calculate_eta d s = Inr (py_int t))
            \<and> (\<forall>k. of_int k + 1 / 1000 \<le> d / s * 60 + (if d < 5 then 10 else 15)
                   \<and> d / s * 60 + (if d < 5 then 10 else 15) + 1 / 1000 < of_int k + 1
                 \<longrightarrow> calculate_eta d s = Inr k))
       \<and> to_double (49 / 10) = Some (2758454771764429 / 562949953421312)
       \<and> calculate_eta (2758454771764429 / 562949953421312) 25 = Inr 21
       \<and> calculate_eta_default (2758454771764429 / 562949953421312) = Inr 21
       \<and> calculate_eta 5 25 = Inr 27
       \<and> calculate_eta_default 5 = Inr 27"
proof -
  let ?b = "if d < 5 then 10 else 15 :: real"
  have a: "calculate_eta d s = int_of_float (float_add (float_mul (float_div d s) 60) ?b)"
    using assms(2) by (simp add: calculate_eta_def Let_def)
  have bc: "(\<exists>t. float_add (float_mul (float_div d s) 60) ?b = Some t
              \<and> \<bar>t - (d / s * 60 + ?b)\<bar> \<le> 1 / 1000
              \<and> calculate_eta d s = Inr (py_int t))
          \<and> (\<forall>k. of_int k + 1 / 1000 \<le> d / s * 60 + ?b
                   \<and> d / s * 60 + ?b + 1 / 1000 < of_int k + 1
                 \<longrightarrow> calculate_eta d s = Inr k)"
    if m: "d / s * 60 \<le> 2 ^ 40"
  proof -
    from calculate_eta_value [OF assms m refl]
    obtain t where t: "float_add (float_mul (float_div d s) 60) ?b = Some t" "0 \<le> t"
      "\<bar>t - (d / s * 60 + ?b)\<bar> \<le> 1 / 1000" "calculate_eta d s = Inr \<lfloor>t\<rfloor>"
      by blast
    have pt: "py_int t = \<lfloor>t\<rfloor>"
      using t(2) by (simp add: py_int_def)
    have b: "\<exists>t. float_add (float_mul (float_div d s) 60) ?b = Some t
                \<and> \<bar>t - (d / s * 60 + ?b)\<bar> \<le> 1 / 1000
                \<and> calculate_eta d s = Inr (py_int t)"
      using t(1,3,4) pt by auto
    have c: "calculate_eta d s = Inr k"
      if "of_int k + 1 / 1000 \<le> d / s * 60 + ?b \<and> d / s * 60 + ?b + 1 / 1000 < of_int k + 1"
      for k
    proof -
      have "of_int k \<le> t" "t < of_int k + 1"
        using that t(3) by linarith+
      then have "\<lfloor>t\<rfloor> = k"
        by (simp add: floor_eq_iff)
      then show ?thesis
        using t(4) by simp
    qed
    from b c show ?thesis
      by blast
  qed
  from a bc double_4_9 eta_4_9 eta_5 show ?thesis
    unfolding calculate_eta_default_def by blast
qed

theorem calculate_eta_buffer_witness:
  "(0::real) \<le> 2758454771764429 / 562949953421312 \<and> (0::real) < 25
   \<and> (2758454771764429 / 562949953421312 :: real) / 25 * 60 \<le> 2 ^ 40
   \<and> of_int 21 + 1 / 1000 \<le> (2758454771764429 / 562949953421312 :: real) / 25 * 60 + 10
   \<and> (2758454771764429 / 562949953421312 :: real) / 25 * 60 + 10 + 1 / 1000 < of_int 21 + 1
   \<and> calculate_eta (2758454771764429 / 562949953421312) 25 = Inr 21"
proof -
  let ?d = "2758454771764429 / 562949953421312 :: real"
  have b: "(if ?d < 5 then 10 else 15 :: real) = 10"
    by simp
  have pre: "of_int 21 + 1 / 1000 \<le> ?d / 25 * 60 + (if ?d < 5 then 10 else 15)
             \<and> ?d / 25 * 60 + (if ?d < 5 then 10 else 15) + 1 / 1000 < of_int 21 + 1"
    unfolding b by simp
  have h: "0 \<le> ?d" "(0::real) < 25"
    by simp_all
  have m: "?d / 25 * 60 \<le> 2 ^ 40"
    by simp
  from calculate_eta_buffer [OF h, THEN conjunct2, THEN conjunct1, THEN mp, OF m,
      THEN conjunct2, THEN spec [where x = 21], THEN mp, OF pre]
  have "calculate_eta ?d 25 = Inr 21" .
  moreover have "of_int 21 + 1 / 1000 \<le> ?d / 25 * 60 + 10
                 \<and> ?d / 25 * 60 + 10 + 1 / 1000 < of_int 21 + 1"
    using pre unfolding b .
  ultimately show ?thesis
    using h m by simp
qed

text \<open>
  C3 (as stated). At 205 km and speed 25 the exact value of the formula is 507, but the
  quotient 8.2 is no double, the product is rounded to the double just below 492, and the
  function returns 506. Truncating before the buffer is added gives another result than
  the code where the sum rounds up to an integer: at the distance 0.41666666666666635 the
  product is the double just below 1, the function returns 11 and truncating first gives
  10. And the function returns no integer at all when the quotient exceeds the range of
  the doubles: it raises \<^verbatim>\<open>OverflowError\<close>.
\<close>

theorem calculate_eta_exact_formula_counterexample:
  "calculate_eta 205 25 = Inr 506
   \<and> py_int (205 / 25 * 60 + 15) = 507
   \<and> calculate_eta (7505999378950821 / 18014398509481984) 25 = Inr 11
   \<and> float_mul (float_div (7505999378950821 / 18014398509481984) 25) 60
       = Some (1125899906842623 / 1125899906842624)
   \<and> py_int (1125899906842623 / 1125899906842624) + 10 = 10
   \<and> calculate_eta (2 ^ 1023) (1 / 2 ^ 1022) = Inl OverflowError"
  by (simp add: float_eval)

section \<open>Properties of the record store\<close>

lemma str_nat_1: "str_nat (Suc 0) = ''1''"
  by (simp add: str_nat.simps digit_char_def)

lemma map_of_update_same: "map_of (AList.update k v d) k = Some v"
  by (simp add: update_conv')

lemma map_of_update_other: "k' \<noteq> k \<Longrightarrow> map_of (AList.update k v d) k' = map_of d k'"
  by (simp add: update_conv')

text \<open>
  C2 (as stated, for users). \<open>add_user\<close> stores the record as it is given: a user
  inserted without an id has no id afterwards.
\<close>

theorem add_user_assigns_no_id:
  "map_of [(''name'', VStr ''Asha'')] ''id'' = None
   \<and> users (mem (snd (add_user True [(''name'', VStr ''Asha'')]
                        \<lparr>mem = empty_store, disk = empty_store\<rparr>)))
       = [[(''name'', VStr ''Asha'')]]
   \<and> map_of (last (users (mem (snd (add_user True [(''name'', VStr ''Asha'')]
                        \<lparr>mem = empty_store, disk = empty_store\<rparr>))))) ''id'' = None"
  by (simp add: add_user_def empty_store_def save_data_to_file_def Let_def)

text \<open>
  C2 (amended). For restaurants, menu items and orders, a record inserted without an id is
  stored at the end of its collection with the id \<open>rest\<close>, \<open>item\<close> or \<open>order\<close> followed
  by the decimal count of the records already there plus one; \<open>add_order\<close> returns the
  stored order. \<open>add_user\<close> appends the record unchanged, with no id assigned.
\<close>

theorem insert_assigns_prefixed_id:
  assumes "map_of r ''id'' = None"
  shows "(\<exists>r'. restaurants (mem (snd (add_restaurant w r s))) = restaurants (mem s) @ [r']
            \<and> map_of r' ''id'' = Some (VStr (''rest'' @ str_nat (length (restaurants (mem s)) + 1))))
       \<and> (\<exists>r'. menu_items (mem (snd (add_menu_item w r s))) = menu_items (mem s) @ [r']
            \<and> map_of r' ''id'' = Some (VStr (''item'' @ str_nat (length (menu_items (mem s)) + 1))))
       \<and> (\<exists>r'. orders (mem (snd (add_order w now r s))) = orders (mem s) @ [r']
            \<and> fst (add_order w now r s) = r'
            \<and> map_of r' ''id'' = Some (VStr (''order'' @ str_nat (length (orders (mem s)) + 1))))
       \<and> users (mem (snd (add_user w r s))) = users (mem s) @ [r]"
proof -
  have a: "\<exists>r'. restaurants (mem (snd (add_restaurant w r s))) = restaurants (mem s) @ [r']
            \<and> map_of r' ''id'' = Some (VStr (''rest'' @ str_nat (length (restaurants (mem s)) + 1)))"
    using assms
    by (simp add: add_restaurant_def save_data_to_file_def Let_def map_of_update_same)
  have b: "\<exists>r'. menu_items (mem (snd (add_menu_item w r s))) = menu_items (mem s) @ [r']
            \<and> map_of r' ''id'' = Some (VStr (''item'' @ str_nat (length (menu_items (mem s)) + 1)))"
    using assms
    by (simp add: add_menu_item_def save_data_to_file_def Let_def map_of_update_same)
  have c: "\<exists>r'. orders (mem (snd (add_order w now r s))) = orders (mem s) @ [r']
            \<and> fst (add_order w now r s) = r'
            \<and> map_of r' ''id'' = Some (VStr (''order'' @ str_nat (length (orders (mem s)) + 1)))"
    using assms
    by (auto simp: add_order_def save_data_to_file_def Let_def map_of_update_same
        map_of_update_other)
  have d: "users (mem (snd (add_user w r s))) = users (mem s) @ [r]"
    by (simp add: add_user_def save_data_to_file_def Let_def)
  from a b c d show ?thesis by blast
qed

theorem insert_assigns_prefixed_id_witness:
  "map_of [(''name'', VStr ''Dosa Hut'')] ''id'' = None
   \<and> (\<exists>r'. restaurants (mem (snd (add_restaurant True [(''name'', VStr ''Dosa Hut'')]
              \<lparr>mem = empty_store, disk = empty_store\<rparr>))) = [r']
          \<and> map_of r' ''id'' = Some (VStr ''rest1''))"
  using insert_assigns_prefixed_id
          [where r = "[(''name'', VStr ''Dosa Hut'')]" and w = True and now = 0
             and s = "\<lparr>mem = empty_store, disk = empty_store\<rparr>"]
  by (simp add: empty_store_def str_nat_1)


lemma replace_first_match:
  assumes "map_of r ''id'' = Some rid"
    and "\<forall>u\<in>set xs. map_of u ''id'' \<noteq> None"
    and "\<exists>u\<in>set xs. map_of u ''id'' = Some rid"
  shows "\<exists>i<length xs. map_of (xs ! i) ''id'' = Some rid
           \<and> (\<forall>j<i. map_of (xs ! j) ''id'' \<noteq> Some rid)
           \<and> replace_first r xs = Inr (Some (xs[i := r]))"
  using assms
proof (induction xs)
  case Nil
  then show ?case by simp
next
  case (Cons u us)
  from Cons.prems obtain uid where uid: "map_of u ''id'' = Some uid"
    by auto
  show ?case
  proof (cases "uid = rid")
    case True
    then have "replace_first r (u # us) = Inr (Some ((u # us)[0 := r]))"
      using uid Cons.prems(1) by simp
    then show ?thesis
      using uid True by (intro exI [of _ 0]) simp
  next
    case False
    then have ex: "\<exists>u\<in>set us. map_of u ''id'' = Some rid"
      using Cons.prems(3) uid by auto
    from Cons.IH [OF Cons.prems(1) _ ex] Cons.prems(2)
    obtain i where i: "i < length us" "map_of (us ! i) ''id'' = Some rid"
      "\<forall>j<i. map_of (us ! j) ''id'' \<noteq> Some rid"
      "replace_first r us = Inr (Some (us[i := r]))"
      by auto
    have "replace_first r (u # us) = Inr (Some ((u # us)[Suc i := r]))"
      using uid False Cons.prems(1) i(4) by simp
    moreover have "\<forall>j<Suc i. map_of ((u # us) ! j) ''id'' \<noteq> Some rid"
      using i(3) uid False by (auto simp: less_Suc_eq_0_disj)
    ultimately show ?thesis
      using i(1,2) by (intro exI [of _ "Suc i"]) simp
  qed
qed



section \<open>Properties of registration\<close>





section \<open>Properties of the cart\<close>

lemma bump_first_None: "bump_first i xs = None \<longleftrightarrow> i \<notin> item_id ` set xs"
  by (induction xs) (auto split: option.splits)

lemma bump_first_restaurants:
  "bump_first i xs = Some ys \<Longrightarrow> map restaurant_id ys = map restaurant_id xs"
  by (induction xs arbitrary: ys) (auto split: if_splits option.splits)

lemma one_restaurantD:
  "one_restaurant cart \<Longrightarrow> x \<in> set cart \<Longrightarrow> y \<in> set cart \<Longrightarrow> restaurant_id x = restaurant_id y"
  unfolding one_restaurant_def by (erule ballE [of _ _ x], erule ballE [of _ _ y]) simp_all

lemma one_restaurantI:
  "(\<And>x y. x \<in> set cart \<Longrightarrow> y \<in> set cart \<Longrightarrow> restaurant_id x = restaurant_id y) \<Longrightarrow> one_restaurant cart"
  unfolding one_restaurant_def by (intro ballI)

lemma one_restaurant_same_map:
  assumes "one_restaurant cart" and "map restaurant_id cart' = map restaurant_id cart"
  shows "one_restaurant cart'"
proof (rule one_restaurantI)
  fix x y
  assume "x \<in> set cart'" "y \<in> set cart'"
  then have "restaurant_id x \<in> set (map restaurant_id cart)"
    "restaurant_id y \<in> set (map restaurant_id cart)"
    unfolding assms(2) [symmetric] by simp_all
  then obtain x' y' where "x' \<in> set cart" "restaurant_id x' = restaurant_id x"
    "y' \<in> set cart" "restaurant_id y' = restaurant_id y"
    by auto
  then show "restaurant_id x = restaurant_id y"
    using one_restaurantD [OF assms(1), of x' y'] by simp
qed

lemma one_restaurant_snoc:
  assumes "\<And>x. x \<in> set cart \<Longrightarrow> restaurant_id x = restaurant_id line"
  shows "one_restaurant (cart @ [line])"
proof (rule one_restaurantI)
  fix x y
  assume "x \<in> set (cart @ [line])" "y \<in> set (cart @ [line])"
  then have "restaurant_id x = restaurant_id line" "restaurant_id y = restaurant_id line"
    using assms by auto
  then show "restaurant_id x = restaurant_id y"
    by simp
qed

lemma one_restaurant_filter:
  assumes "one_restaurant cart"
  shows "one_restaurant (filter P cart)"
proof (rule one_restaurantI)
  fix x y
  assume "x \<in> set (filter P cart)" "y \<in> set (filter P cart)"
  then have "x \<in> set cart" "y \<in> set cart"
    by simp_all
  then show "restaurant_id x = restaurant_id y"
    by (rule one_restaurantD [OF assms])
qed

lemma bump_first_Some:
  assumes "bump_first i xs = Some ys"
  shows "\<exists>n<length xs. item_id (xs ! n) = i \<and> (\<forall>j<n. item_id (xs ! j) \<noteq> i)
           \<and> ys = xs[n := (xs ! n)\<lparr>quantity := quantity (xs ! n) + 1\<rparr>]"
  using assms
proof (induction xs arbitrary: ys)
  case Nil
  then show ?case by simp
next
  case (Cons x xs)
  show ?case
  proof (cases "item_id x = i")
    case True
    then have "ys = (x # xs)[0 := ((x # xs) ! 0)\<lparr>quantity := quantity ((x # xs) ! 0) + 1\<rparr>]"
      using Cons.prems by simp
    then show ?thesis
      using True by (intro exI [of _ 0]) simp
  next
    case False
    then obtain zs where zs: "bump_first i xs = Some zs" "ys = x # zs"
      using Cons.prems by (auto split: option.splits)
    from Cons.IH [OF zs(1)] obtain n where n: "n < length xs" "item_id (xs ! n) = i"
      "\<forall>j<n. item_id (xs ! j) \<noteq> i"
      "zs = xs[n := (xs ! n)\<lparr>quantity := quantity (xs ! n) + 1\<rparr>]"
      by blast
    have "\<forall>j<Suc n. item_id ((x # xs) ! j) \<noteq> i"
      using n(3) False by (auto simp: less_Suc_eq_0_disj)
    then show ?thesis
      using n(1,2,4) zs(2) by (intro exI [of _ "Suc n"]) simp
  qed
qed

lemma add_to_cart_Inr:
  assumes "add_to_cart mi r cart = Inr (ok, cart')"
  shows "(same_restaurant r cart = Inr False \<and> \<not> ok \<and> cart' = cart)
       \<or> (same_restaurant r cart = Inr True \<and> ok
            \<and> (\<exists>mid mname mprice rid rname.
                  lookup mi ''id'' = Inr mid \<and> lookup mi ''name'' = Inr mname
                  \<and> lookup mi ''price'' = Inr mprice \<and> lookup r ''id'' = Inr rid
                  \<and> lookup r ''name'' = Inr rname
                  \<and> cart' = (case bump_first mid cart of
                               Some c \<Rightarrow> c
                             | None \<Rightarrow> cart @ [\<lparr>item_id = mid, item_name = mname,
                                  price = mprice, quantity = 1, restaurant_id = rid,
                                  restaurant_name = rname\<rparr>])))"
  using assms unfolding add_to_cart_def Let_def
  by (auto split: sum.splits bool.splits option.splits)

lemma same_restaurant_True:
  "same_restaurant r cart = Inr True \<longleftrightarrow>
     cart = [] \<or> (cart \<noteq> [] \<and> lookup r ''id'' = Inr (restaurant_id (hd cart)))"
  by (cases cart) (auto simp: same_restaurant_def split: sum.splits)

lemma same_restaurant_False:
  "same_restaurant r cart = Inr False \<longleftrightarrow>
     cart \<noteq> [] \<and> (\<exists>rid. lookup r ''id'' = Inr rid \<and> restaurant_id (hd cart) \<noteq> rid)"
  by (cases cart) (auto simp: same_restaurant_def split: sum.splits)

lemma lookup_Inr: "lookup d k = Inr v \<longleftrightarrow> map_of d k = Some v"
  by (auto simp: lookup_def split: option.splits)

text \<open>
  C9. When all lines of the cart come from one restaurant, they still do after
  \<open>add_to_cart\<close> and after \<open>remove_from_cart\<close>. On a non-empty cart, \<open>add_to_cart\<close> with a
  restaurant whose id differs from that of the cart's lines shows the rejection and leaves
  the cart as it is. When the restaurant is that of the cart and the menu item's id is
  already in the cart, \<open>add_to_cart\<close> adds 1 to the quantity of the first line with that
  id and changes nothing else: no line is appended.
\<close>

theorem cart_one_restaurant:
  assumes "one_restaurant cart"
  shows "(\<forall>ok cart'. add_to_cart mi r cart = Inr (ok, cart') \<longrightarrow> one_restaurant cart')
       \<and> one_restaurant (remove_from_cart i cart)
       \<and> (\<forall>rid. cart \<noteq> [] \<and> map_of r ''id'' = Some rid \<and> restaurant_id (hd cart) \<noteq> rid
             \<longrightarrow> add_to_cart mi r cart = Inr (False, cart))
       \<and> (\<forall>mid mname mprice rname.
             cart \<noteq> [] \<and> map_of r ''id'' = Some (restaurant_id (hd cart))
             \<and> map_of r ''name'' = Some rname \<and> map_of mi ''id'' = Some mid
             \<and> map_of mi ''name'' = Some mname \<and> map_of mi ''price'' = Some mprice
             \<and> mid \<in> item_id ` set cart
             \<longrightarrow> (\<exists>n<length cart. item_id (cart ! n) = mid
                    \<and> (\<forall>j<n. item_id (cart ! j) \<noteq> mid)
                    \<and> add_to_cart mi r cart =
                        Inr (True, cart[n := (cart ! n)\<lparr>quantity := quantity (cart ! n) + 1\<rparr>])))"
proof (intro conjI allI impI)
  fix ok cart'
  assume a: "add_to_cart mi r cart = Inr (ok, cart')"
  from add_to_cart_Inr [OF a] show "one_restaurant cart'"
  proof (elim disjE conjE exE)
    assume "cart' = cart"
    then show ?thesis using assms by simp
  next
    fix mid mname mprice rid rname
    assume sr: "same_restaurant r cart = Inr True" and rid: "lookup r ''id'' = Inr rid"
      and c: "cart' = (case bump_first mid cart of
                               Some c \<Rightarrow> c
                             | None \<Rightarrow> cart @ [\<lparr>item_id = mid, item_name = mname,
                                  price = mprice, quantity = 1, restaurant_id = rid,
                                  restaurant_name = rname\<rparr>])"
    show ?thesis
    proof (cases "bump_first mid cart")
      case (Some ys)
      have "cart' = ys"
        using c Some by simp
      then have "map restaurant_id cart' = map restaurant_id cart"
        using bump_first_restaurants [OF Some] by simp
      with assms show ?thesis
        by (rule one_restaurant_same_map)
    next
      case None
      have "restaurant_id x = rid" if x: "x \<in> set cart" for x
      proof -
        from x have ne: "cart \<noteq> []"
          by auto
        then have "lookup r ''id'' = Inr (restaurant_id (hd cart))"
          using sr unfolding same_restaurant_True by blast
        then have "restaurant_id (hd cart) = rid"
          using rid by simp
        moreover have "hd cart \<in> set cart"
          using ne by (rule hd_in_set)
        ultimately show ?thesis
          using one_restaurantD [OF assms x, of "hd cart"] by simp
      qed
      then have "one_restaurant (cart @ [\<lparr>item_id = mid, item_name = mname,
                                  price = mprice, quantity = 1, restaurant_id = rid,
                                  restaurant_name = rname\<rparr>])"
        by (intro one_restaurant_snoc) simp
      then show ?thesis
        using c None by simp
    qed
  qed
next
  show "one_restaurant (remove_from_cart i cart)"
    unfolding remove_from_cart_def using assms by (rule one_restaurant_filter)
next
  fix rid
  assume "cart \<noteq> [] \<and> map_of r ''id'' = Some rid \<and> restaurant_id (hd cart) \<noteq> rid"
  then have "same_restaurant r cart = Inr False"
    unfolding same_restaurant_False lookup_Inr by blast
  then show "add_to_cart mi r cart = Inr (False, cart)"
    by (simp add: add_to_cart_def)
next
  fix mid mname mprice rname
  assume h: "cart \<noteq> [] \<and> map_of r ''id'' = Some (restaurant_id (hd cart))
             \<and> map_of r ''name'' = Some rname \<and> map_of mi ''id'' = Some mid
             \<and> map_of mi ''name'' = Some mname \<and> map_of mi ''price'' = Some mprice
             \<and> mid \<in> item_id ` set cart"
  then have "mid \<in> item_id ` set cart"
    by blast
  then obtain ys where ys: "bump_first mid cart = Some ys"
    using bump_first_None [of mid cart] by (cases "bump_first mid cart") simp_all
  from bump_first_Some [OF ys] obtain n where n: "n < length cart" "item_id (cart ! n) = mid"
    "\<forall>j<n. item_id (cart ! j) \<noteq> mid"
    "ys = cart[n := (cart ! n)\<lparr>quantity := quantity (cart ! n) + 1\<rparr>]"
    by blast
  have "same_restaurant r cart = Inr True"
    unfolding same_restaurant_True lookup_Inr using h by blast
  moreover have "lookup mi ''id'' = Inr mid" "lookup mi ''name'' = Inr mname"
    "lookup mi ''price'' = Inr mprice" "lookup r ''id'' = Inr (restaurant_id (hd cart))"
    "lookup r ''name'' = Inr rname"
    unfolding lookup_Inr using h by blast+
  ultimately have "add_to_cart mi r cart = Inr (True, ys)"
    using ys by (simp add: add_to_cart_def)
  then show "\<exists>n<length cart. item_id (cart ! n) = mid
                    \<and> (\<forall>j<n. item_id (cart ! j) \<noteq> mid)
                    \<and> add_to_cart mi r cart =
                        Inr (True, cart[n := (cart ! n)\<lparr>quantity := quantity (cart ! n) + 1\<rparr>])"
    using n by blast
qed

theorem cart_one_restaurant_witness:
  "one_restaurant [\<lparr>item_id = VStr ''item1'', item_name = VStr ''Idli'', price = VNum 40,
                    quantity = 1, restaurant_id = VStr ''rest1'',
                    restaurant_name = VStr ''Dosa Hut''\<rparr>]
   \<and> add_to_cart [(''id'', VStr ''item9''), (''name'', VStr ''Naan''), (''price'', VNum 30)]
                 [(''id'', VStr ''rest2''), (''name'', VStr ''Tandoor'')]
                 [\<lparr>item_id = VStr ''item1'', item_name = VStr ''Idli'', price = VNum 40,
                    quantity = 1, restaurant_id = VStr ''rest1'',
                    restaurant_name = VStr ''Dosa Hut''\<rparr>]
       = Inr (False, [\<lparr>item_id = VStr ''item1'', item_name = VStr ''Idli'', price = VNum 40,
                    quantity = 1, restaurant_id = VStr ''rest1'',
                    restaurant_name = VStr ''Dosa Hut''\<rparr>])
   \<and> add_to_cart [(''id'', VStr ''item1''), (''name'', VStr ''Idli''), (''price'', VNum 40)]
                 [(''id'', VStr ''rest1''), (''name'', VStr ''Dosa Hut'')]
                 [\<lparr>item_id = VStr ''item1'', item_name = VStr ''Idli'', price = VNum 40,
                    quantity = 1, restaurant_id = VStr ''rest1'',
                    restaurant_name = VStr ''Dosa Hut''\<rparr>]
       = Inr (True, [\<lparr>item_id = VStr ''item1'', item_name = VStr ''Idli'', price = VNum 40,
                    quantity = 2, restaurant_id = VStr ''rest1'',
                    restaurant_name = VStr ''Dosa Hut''\<rparr>])"
proof -
  let ?c = "[\<lparr>item_id = VStr ''item1'', item_name = VStr ''Idli'', price = VNum 40,
                    quantity = 1, restaurant_id = VStr ''rest1'',
                    restaurant_name = VStr ''Dosa Hut''\<rparr>]"
  have inv: "one_restaurant ?c"
    by (simp add: one_restaurant_def)
  have a: "add_to_cart [(''id'', VStr ''item9''), (''name'', VStr ''Naan''), (''price'', VNum 30)]
                 [(''id'', VStr ''rest2''), (''name'', VStr ''Tandoor'')] ?c = Inr (False, ?c)"
    using cart_one_restaurant
            [OF inv, where r = "[(''id'', VStr ''rest2''), (''name'', VStr ''Tandoor'')]"
               and mi = "[(''id'', VStr ''item9''), (''name'', VStr ''Naan''), (''price'', VNum 30)]",
             THEN conjunct2, THEN conjunct2, THEN conjunct1,
             THEN spec [where x = "VStr ''rest2''"]]
    by simp
  have "\<exists>n<length ?c. item_id (?c ! n) = VStr ''item1''
           \<and> (\<forall>j<n. item_id (?c ! j) \<noteq> VStr ''item1'')
           \<and> add_to_cart [(''id'', VStr ''item1''), (''name'', VStr ''Idli''), (''price'', VNum 40)]
                 [(''id'', VStr ''rest1''), (''name'', VStr ''Dosa Hut'')] ?c
               = Inr (True, ?c[n := (?c ! n)\<lparr>quantity := quantity (?c ! n) + 1\<rparr>])"
    by (rule cart_one_restaurant
            [OF inv, where r = "[(''id'', VStr ''rest1''), (''name'', VStr ''Dosa Hut'')]"
               and mi = "[(''id'', VStr ''item1''), (''name'', VStr ''Idli''), (''price'', VNum 40)]",
             THEN conjunct2, THEN conjunct2, THEN conjunct2,
             THEN spec [where x = "VStr ''item1''"], THEN spec [where x = "VStr ''Idli''"],
             THEN spec [where x = "VNum 40"], THEN spec [where x = "VStr ''Dosa Hut''"],
             THEN mp])
       simp
  then obtain n where n: "n < length ?c"
    and eq: "add_to_cart [(''id'', VStr ''item1''), (''name'', VStr ''Idli''), (''price'', VNum 40)]
                 [(''id'', VStr ''rest1''), (''name'', VStr ''Dosa Hut'')] ?c
               = Inr (True, ?c[n := (?c ! n)\<lparr>quantity := quantity (?c ! n) + 1\<rparr>])"
    by blast
  from n have "n = 0"
    by simp
  with eq have b: "add_to_cart [(''id'', VStr ''item1''), (''name'', VStr ''Idli''), (''price'', VNum 40)]
                 [(''id'', VStr ''rest1''), (''name'', VStr ''Dosa Hut'')] ?c
       = Inr (True, [\<lparr>item_id = VStr ''item1'', item_name = VStr ''Idli'', price = VNum 40,
                    quantity = 2, restaurant_id = VStr ''rest1'',
                    restaurant_name = VStr ''Dosa Hut''\<rparr>])"
    by simp
  from inv a b show ?thesis by blast
qed

section \<open>Properties of the search for nearby restaurants\<close>

lemma calculate_distance_same: "calculate_distance lat lon lat lon = Inr 0"
  unfolding calculate_distance_eq by (simp add: haversine_a_def)

lemma calculate_distance_equator:
  assumes "0 \<le> x" and "x \<le> 180"
  shows "calculate_distance 0 0 0 x = Inr (6371 * x * pi / 180)"
proof -
  let ?y = "radians x / 2"
  have y: "0 \<le> ?y" "?y \<le> pi / 2"
    using assms by (simp_all add: radians_def)
  have "haversine_a (radians 0) (radians 0) (radians 0) (radians x) = (sin ?y)\<^sup>2"
    by (simp add: haversine_a_def radians_def)
  moreover have "0 \<le> sin ?y"
    using y pi_ge_two by (intro sin_ge_zero) simp_all
  ultimately have s: "sqrt (haversine_a (radians 0) (radians 0) (radians 0) (radians x)) = sin ?y"
    by simp
  have a: "arcsin (sin ?y) = ?y"
    using y by (intro arcsin_sin) simp_all
  have "2 * ?y * 6371 = 6371 * x * pi / 180"
    by (simp add: radians_def)
  then show ?thesis
    unfolding calculate_distance_eq s a by simp
qed

lemma set_item_fresh: "set_item (length h) k v (h @ [d]) = h @ [AList.update k v d]"
  by (simp add: set_item_def)

lemma nearby_loop_heap_ext: "\<exists>ext. fst (nearby_loop calc ul rad rs h acc) = h @ ext"
proof (induction rs arbitrary: h acc)
  case Nil
  then show ?case by simp
next
  case (Cons r rs)
  show ?case
  proof (cases "restaurant_distance calc ul (h ! r)")
    case (Inl e)
    then show ?thesis by simp
  next
    case (Inr d)
    show ?thesis
    proof (cases "d \<le> rad")
      case True
      let ?h2 = "h @ [AList.update ''distance'' (VNum (py_round2 d)) (h ! r)]"
      from Cons.IH [of ?h2 "acc @ [length h]"]
      obtain ext where "fst (nearby_loop calc ul rad rs ?h2 (acc @ [length h])) = ?h2 @ ext"
        by blast
      then show ?thesis
        using Inr True by (simp add: copy_dict_def set_item_fresh)
    next
      case False
      then show ?thesis
        using Inr Cons.IH [of h acc] by simp
    qed
  qed
qed

lemma true_distance_Inr: "restaurant_distance calc ul r = Inr d \<Longrightarrow> true_distance calc ul r = d"
  by (simp add: true_distance_def)

lemma nearby_loop_ok:
  assumes "\<forall>r\<in>set rs. r < length h \<and> (\<exists>d. restaurant_distance calc ul (h ! r) = Inr d)"
  shows "nearby_loop calc ul rad rs h acc =
           (h @ map (\<lambda>r. with_distance calc ul (h ! r))
                  (filter (\<lambda>r. true_distance calc ul (h ! r) \<le> rad) rs),
            Inr (acc @ [length h ..< length h
                          + length (filter (\<lambda>r. true_distance calc ul (h ! r) \<le> rad) rs)]))"
  using assms
proof (induction rs arbitrary: h acc)
  case Nil
  then show ?case by simp
next
  case (Cons r rs)
  from Cons.prems obtain d where d: "restaurant_distance calc ul (h ! r) = Inr d" and r: "r < length h"
    by auto
  have td: "true_distance calc ul (h ! r) = d"
    using d by (rule true_distance_Inr)
  show ?case
  proof (cases "d \<le> rad")
    case True
    let ?x = "AList.update ''distance'' (VNum (py_round2 d)) (h ! r)"
    let ?h2 = "h @ [?x]"
    have same: "?h2 ! q = h ! q" if "q \<in> set rs" for q
      using that Cons.prems by (simp add: nth_append)
    have pre: "\<forall>q\<in>set rs. q < length ?h2 \<and> (\<exists>d. restaurant_distance calc ul (?h2 ! q) = Inr d)"
      using Cons.prems by (auto simp: nth_append less_Suc_eq)
    have f: "filter (\<lambda>q. true_distance calc ul (?h2 ! q) \<le> rad) rs
               = filter (\<lambda>q. true_distance calc ul (h ! q) \<le> rad) rs"
      by (rule filter_cong) (simp_all add: same)
    have m: "map (\<lambda>q. with_distance calc ul (?h2 ! q)) (filter (\<lambda>q. true_distance calc ul (h ! q) \<le> rad) rs)
               = map (\<lambda>q. with_distance calc ul (h ! q)) (filter (\<lambda>q. true_distance calc ul (h ! q) \<le> rad) rs)"
      by (rule map_cong) (simp_all add: same)
    have x: "?x = with_distance calc ul (h ! r)"
      by (simp add: with_distance_def td)
    have u: "length h # [Suc (length h) ..< Suc (length h + n)] = [length h ..< Suc (length h + n)]"
      for n
      by (simp add: upt_conv_Cons)
    have "nearby_loop calc ul rad (r # rs) h acc = nearby_loop calc ul rad rs ?h2 (acc @ [length h])"
      using d True by (simp add: copy_dict_def set_item_fresh)
    also have "\<dots> = (?h2 @ map (\<lambda>q. with_distance calc ul (?h2 ! q))
                              (filter (\<lambda>q. true_distance calc ul (?h2 ! q) \<le> rad) rs),
                      Inr ((acc @ [length h]) @ [length ?h2 ..< length ?h2
                          + length (filter (\<lambda>q. true_distance calc ul (?h2 ! q) \<le> rad) rs)]))"
      by (rule Cons.IH [OF pre])
    finally show ?thesis
      unfolding f m using True td x u by simp
  next
    case False
    have pre: "\<forall>q\<in>set rs. q < length h \<and> (\<exists>d. restaurant_distance calc ul (h ! q) = Inr d)"
      using Cons.prems by simp
    have "nearby_loop calc ul rad (r # rs) h acc = nearby_loop calc ul rad rs h acc"
      using d False by simp
    then show ?thesis
      using Cons.IH [OF pre, of acc] False td by simp
  qed
qed

lemma nearby_loop_Inr:
  assumes "nearby_loop calc ul rad rs h acc = (h', Inr out)" and "\<forall>r\<in>set rs. r < length h"
  shows "\<forall>r\<in>set rs. \<exists>d. restaurant_distance calc ul (h ! r) = Inr d"
  using assms
proof (induction rs arbitrary: h acc)
  case Nil
  then show ?case by simp
next
  case (Cons r rs)
  from Cons.prems(1) obtain d where d: "restaurant_distance calc ul (h ! r) = Inr d"
    by (cases "restaurant_distance calc ul (h ! r)") simp_all
  show ?case
  proof (cases "d \<le> rad")
    case True
    let ?h2 = "h @ [AList.update ''distance'' (VNum (py_round2 d)) (h ! r)]"
    have "nearby_loop calc ul rad rs ?h2 (acc @ [length h]) = (h', Inr out)"
      using Cons.prems(1) d True by (simp add: copy_dict_def set_item_fresh)
    moreover have "\<forall>q\<in>set rs. q < length ?h2"
      using Cons.prems(2) by auto
    ultimately have "\<forall>q\<in>set rs. \<exists>d. restaurant_distance calc ul (?h2 ! q) = Inr d"
      by (rule Cons.IH)
    then have "\<forall>q\<in>set rs. \<exists>d. restaurant_distance calc ul (h ! q) = Inr d"
      using Cons.prems(2) by (simp add: nth_append)
    then show ?thesis
      using d by simp
  next
    case False
    have "nearby_loop calc ul rad rs h acc = (h', Inr out)"
      using Cons.prems(1) d False by simp
    moreover have "\<forall>q\<in>set rs. q < length h"
      using Cons.prems(2) by simp
    ultimately have "\<forall>q\<in>set rs. \<exists>d. restaurant_distance calc ul (h ! q) = Inr d"
      by (rule Cons.IH)
    then show ?thesis
      using d by simp
  qed
qed

lemma map_insort_key:
  "map f (insort_key (\<lambda>x. g (f x)) a xs) = insort_key g (f a) (map f xs)"
  by (induction xs) simp_all

lemma map_sort_key: "map f (sort_key (\<lambda>x. g (f x)) xs) = sort_key g (map f xs)"
  by (induction xs) (simp_all add: map_insort_key)

lemma map_nth_fresh: "map ((!) (h @ ys)) [length h ..< length h + length ys] = ys"
proof (rule nth_equalityI)
  show "length (map ((!) (h @ ys)) [length h ..< length h + length ys]) = length ys"
    by simp
next
  fix i
  assume "i < length (map ((!) (h @ ys)) [length h ..< length h + length ys])"
  then have "i < length ys"
    by simp
  then show "map ((!) (h @ ys)) [length h ..< length h + length ys] ! i = ys ! i"
    by (simp add: nth_append)
qed

lemma get_nearby_restaurants_ok:
  assumes "\<forall>r\<in>set rs. r < length h \<and> (\<exists>d. restaurant_distance calc ul (h ! r) = Inr d)"
  shows "\<exists>h' out. get_nearby_restaurants calc ul rs rad h = (h', Inr out)
           \<and> h' = h @ map (\<lambda>r. with_distance calc ul (h ! r))
                         (filter (\<lambda>r. true_distance calc ul (h ! r) \<le> rad) rs)
           \<and> set out = {length h ..< length h'}
           \<and> map ((!) h') out =
               sort_key distance_key
                 (map (\<lambda>r. with_distance calc ul (h ! r))
                    (filter (\<lambda>r. true_distance calc ul (h ! r) \<le> rad) rs))"
proof -
  let ?sel = "filter (\<lambda>r. true_distance calc ul (h ! r) \<le> rad) rs"
  let ?new = "map (\<lambda>r. with_distance calc ul (h ! r)) ?sel"
  let ?h' = "h @ ?new"
  let ?refs = "[length h ..< length h + length ?sel]"
  let ?out = "sort_key (\<lambda>x. distance_key (?h' ! x)) ?refs"
  have loop: "nearby_loop calc ul rad rs h [] = (?h', Inr ?refs)"
    using nearby_loop_ok [OF assms, of rad "[]"] by simp
  then have res: "get_nearby_restaurants calc ul rs rad h = (?h', Inr ?out)"
    by (simp add: get_nearby_restaurants_def)
  have "map ((!) ?h') ?out = sort_key distance_key (map ((!) ?h') ?refs)"
    by (rule map_sort_key)
  also have "map ((!) ?h') ?refs = ?new"
    using map_nth_fresh [of h ?new] by simp
  finally have m: "map ((!) ?h') ?out = sort_key distance_key ?new" .
  have s: "set ?out = {length h ..< length ?h'}"
    by simp
  from res m s show ?thesis
    by blast
qed

lemma distance_key_with_distance:
  "distance_key (with_distance calc ul r) = py_round2 (true_distance calc ul r)"
  by (simp add: distance_key_def with_distance_def map_of_update_same)

text \<open>
  C4 (amended). When every listed restaurant has a readable location,
  \<open>get_nearby_restaurants\<close> returns, and the returned records are exactly the copies of the
  input restaurants whose distance, as \<open>calc\<close> computes it, is at most the radius, each
  annotated with that distance rounded to two decimals, in the stable order of the rounded
  distance: the annotated distances are non-decreasing, and no returned restaurant's
  distance before rounding exceeds the radius. This holds whatever the function \<open>calc\<close>
  is, so also for \<^verbatim>\<open>calculate_distance\<close> in double precision.
\<close>

theorem nearby_within_radius_sorted_by_rounded_distance:
  assumes "\<forall>r\<in>set rs. r < length h \<and> (\<exists>d. restaurant_distance calc ul (h ! r) = Inr d)"
  shows "\<exists>h' out. get_nearby_restaurants calc ul rs rad h = (h', Inr out)
           \<and> map ((!) h') out =
               sort_key distance_key
                 (map (\<lambda>r. with_distance calc ul (h ! r))
                    (filter (\<lambda>r. true_distance calc ul (h ! r) \<le> rad) rs))
           \<and> sorted (map (\<lambda>x. distance_key (h' ! x)) out)
           \<and> (\<forall>x\<in>set out. \<exists>r\<in>set rs.
                  h' ! x = with_distance calc ul (h ! r)
                  \<and> true_distance calc ul (h ! r) \<le> rad
                  \<and> distance_key (h' ! x) = py_round2 (true_distance calc ul (h ! r)))"
proof -
  let ?new = "map (\<lambda>r. with_distance calc ul (h ! r))
                (filter (\<lambda>r. true_distance calc ul (h ! r) \<le> rad) rs)"
  from get_nearby_restaurants_ok [OF assms, of rad]
  obtain h' out where res: "get_nearby_restaurants calc ul rs rad h = (h', Inr out)"
    and m: "map ((!) h') out = sort_key distance_key ?new"
    by blast
  have "map (\<lambda>x. distance_key (h' ! x)) out = map distance_key (map ((!) h') out)"
    by simp
  also have "\<dots> = map distance_key (sort_key distance_key ?new)"
    by (simp only: m)
  finally have s: "sorted (map (\<lambda>x. distance_key (h' ! x)) out)"
    by (simp only: sorted_sort_key)
  have e: "\<exists>r\<in>set rs. h' ! x = with_distance calc ul (h ! r)
                  \<and> true_distance calc ul (h ! r) \<le> rad
                  \<and> distance_key (h' ! x) = py_round2 (true_distance calc ul (h ! r))"
    if x: "x \<in> set out" for x
  proof -
    from x have "h' ! x \<in> set (map ((!) h') out)"
      by simp
    then have "h' ! x \<in> set ?new"
      unfolding m by simp
    then obtain r where "r \<in> set rs" "true_distance calc ul (h ! r) \<le> rad"
      "h' ! x = with_distance calc ul (h ! r)"
      by auto
    then show ?thesis
      using distance_key_with_distance [of calc ul "h ! r"] by auto
  qed
  from res m s e show ?thesis
    by blast
qed

lemma get_nearby_restaurants_Inr:
  assumes "get_nearby_restaurants calc ul rs rad h = (h', Inr out)"
  shows "\<exists>nearby. nearby_loop calc ul rad rs h [] = (h', Inr nearby)"
  using assms unfolding get_nearby_restaurants_def
  by (cases "nearby_loop calc ul rad rs h []") (auto split: sum.splits)

lemma get_nearby_restaurants_heap:
  "fst (get_nearby_restaurants calc ul rs rad h) = fst (nearby_loop calc ul rad rs h [])"
  unfolding get_nearby_restaurants_def
  by (cases "nearby_loop calc ul rad rs h []") (auto split: sum.splits)

text \<open>
  C10. \<open>get_nearby_restaurants\<close> changes no object that existed before the call, whether
  it returns or raises: the heap only grows, so every field of every input record is as
  before. Each returned entry is a new object holding the items of one input record and
  the key \<open>distance\<close> with that record's distance rounded to two decimals; all its other
  keys are those of the input record.
\<close>

theorem nearby_leaves_input_records_unchanged:
  assumes "\<forall>r\<in>set rs. r < length h"
    and "get_nearby_restaurants calc ul rs rad h = (h', res)"
  shows "take (length h) h' = h
       \<and> (\<forall>r\<in>set rs. h' ! r = h ! r)
       \<and> (\<forall>out. res = Inr out \<longrightarrow>
            (\<forall>x\<in>set out. length h \<le> x \<and> x < length h'
               \<and> (\<exists>r\<in>set rs. \<exists>d. restaurant_distance calc ul (h ! r) = Inr d
                     \<and> h' ! x = AList.update ''distance'' (VNum (py_round2 d)) (h ! r)
                     \<and> map_of (h' ! x) ''distance'' = Some (VNum (py_round2 d))
                     \<and> (\<forall>k. k \<noteq> ''distance'' \<longrightarrow> map_of (h' ! x) k = map_of (h ! r) k))))"
proof -
  from nearby_loop_heap_ext [of calc ul rad rs h "[]"] assms(2)
  obtain ext where ext: "h' = h @ ext"
    using get_nearby_restaurants_heap [of calc ul rs rad h] by auto
  then have a: "take (length h) h' = h"
    by simp
  have b: "\<forall>r\<in>set rs. h' ! r = h ! r"
    using assms(1) ext by (simp add: nth_append)
  have c: "length h \<le> x \<and> x < length h'
               \<and> (\<exists>r\<in>set rs. \<exists>d. restaurant_distance calc ul (h ! r) = Inr d
                     \<and> h' ! x = AList.update ''distance'' (VNum (py_round2 d)) (h ! r)
                     \<and> map_of (h' ! x) ''distance'' = Some (VNum (py_round2 d))
                     \<and> (\<forall>k. k \<noteq> ''distance'' \<longrightarrow> map_of (h' ! x) k = map_of (h ! r) k))"
    if out: "res = Inr out" and x: "x \<in> set out" for out x
  proof -
    let ?new = "map (\<lambda>r. with_distance calc ul (h ! r))
                  (filter (\<lambda>r. true_distance calc ul (h ! r) \<le> rad) rs)"
    from assms(2) out obtain nearby where "nearby_loop calc ul rad rs h [] = (h', Inr nearby)"
      using get_nearby_restaurants_Inr by blast
    then have comp: "\<forall>r\<in>set rs. \<exists>d. restaurant_distance calc ul (h ! r) = Inr d"
      using assms(1) by (rule nearby_loop_Inr)
    then have "\<forall>r\<in>set rs. r < length h \<and> (\<exists>d. restaurant_distance calc ul (h ! r) = Inr d)"
      using assms(1) by simp
    from get_nearby_restaurants_ok [OF this, of rad] assms(2) out
    have h': "h' = h @ ?new" and so: "set out = {length h ..< length h'}"
      by simp_all
    from x so have rng: "length h \<le> x" "x < length h'"
      by simp_all
    then have "h' ! x = ?new ! (x - length h)" "x - length h < length ?new"
      using h' by (simp_all add: nth_append)
    then have "h' ! x \<in> set ?new"
      by (metis nth_mem)
    then obtain r where r: "r \<in> set rs" "h' ! x = with_distance calc ul (h ! r)"
      by auto
    from comp r(1) obtain d where d: "restaurant_distance calc ul (h ! r) = Inr d"
      by blast
    then have w: "h' ! x = AList.update ''distance'' (VNum (py_round2 d)) (h ! r)"
      using r(2) by (simp add: with_distance_def true_distance_Inr)
    have "map_of (h' ! x) ''distance'' = Some (VNum (py_round2 d))"
      unfolding w by (rule map_of_update_same)
    moreover have "\<forall>k. k \<noteq> ''distance'' \<longrightarrow> map_of (h' ! x) k = map_of (h ! r) k"
      unfolding w by (simp add: map_of_update_other)
    ultimately show ?thesis
      using rng r(1) d w by blast
  qed
  from a b c show ?thesis
    by blast
qed

lemma py_round2_small:
  assumes "0 \<le> x" and "x < 1 / 200"
  shows "py_round2 x = 0"
proof -
  have "0 \<le> x * 100" "x * 100 < 1 / 2"
    using assms by simp_all
  then have "\<lfloor>x * 100\<rfloor> = 0"
    by (simp add: floor_eq_iff)
  then show ?thesis
    using \<open>x * 100 < 1 / 2\<close> by (simp add: py_round2_def Let_def)
qed

lemma py_round2_near: "py_round2 x - 1 / 200 \<le> x \<and> x \<le> py_round2 x + 1 / 200"
proof -
  define F where "F = real_of_int \<lfloor>x * 100\<rfloor>"
  have lo: "F \<le> x * 100" and hi: "x * 100 < F + 1"
    unfolding F_def by linarith+
  have r: "py_round2 x = F / 100 \<and> x * 100 - F \<le> 1 / 2
         \<or> py_round2 x = (F + 1) / 100 \<and> 1 / 2 \<le> x * 100 - F"
    unfolding F_def by (auto simp: py_round2_def Let_def)
  then show ?thesis
  proof
    assume a: "py_round2 x = F / 100 \<and> x * 100 - F \<le> 1 / 2"
    then have "F / 100 - 1 / 200 \<le> x" "x \<le> F / 100 + 1 / 200"
      using lo by linarith+
    then show ?thesis
      using a by simp
  next
    assume a: "py_round2 x = (F + 1) / 100 \<and> 1 / 2 \<le> x * 100 - F"
    have e: "(F + 1) / 100 = F / 100 + 1 / 100"
      by (simp add: add_divide_distrib)
    have "F / 100 + 1 / 100 - 1 / 200 \<le> x" "x \<le> F / 100 + 1 / 100 + 1 / 200"
      using a hi by linarith+
    then show ?thesis
      using a e by simp
  qed
qed

lemma restaurant_distance_origin:
  "restaurant_distance calculate_distance [(''lat'', VNum 0), (''lng'', VNum 0)]
     [(''id'', i), (''location'', VDict [(''lat'', VNum 0), (''lng'', VNum x)])]
   = calculate_distance 0 0 0 x"
  by (simp add: restaurant_distance_def lookup_def calculate_distance_args_def)

theorem nearby_within_radius_sorted_by_rounded_distance_witness:
  "\<exists>h' out. get_nearby_restaurants calculate_distance [(''lat'', VNum 0), (''lng'', VNum 0)]
       [0, 1, 2] 5
       [[(''id'', VStr ''far''),
         (''location'', VDict [(''lat'', VNum 0), (''lng'', VNum 1)])],
        [(''id'', VStr ''mid''),
         (''location'', VDict [(''lat'', VNum 0), (''lng'', VNum (3 / 100))])],
        [(''id'', VStr ''near''),
         (''location'', VDict [(''lat'', VNum 0), (''lng'', VNum (1 / 100))])]] = (h', Inr out)
     \<and> map ((!) h') out =
         [[(''id'', VStr ''near''),
           (''location'', VDict [(''lat'', VNum 0), (''lng'', VNum (1 / 100))]),
           (''distance'', VNum (py_round2 (6371 * pi / 18000)))],
          [(''id'', VStr ''mid''),
           (''location'', VDict [(''lat'', VNum 0), (''lng'', VNum (3 / 100))]),
           (''distance'', VNum (py_round2 (6371 * pi / 6000)))]]
     \<and> 5 < 6371 * pi / 180
     \<and> py_round2 (6371 * pi / 18000) < py_round2 (6371 * pi / 6000)"
proof -
  let ?ul = "[(''lat'', VNum 0), (''lng'', VNum 0)]"
  let ?F = "[(''id'', VStr ''far''),
             (''location'', VDict [(''lat'', VNum 0), (''lng'', VNum 1)])]"
  let ?M = "[(''id'', VStr ''mid''),
             (''location'', VDict [(''lat'', VNum 0), (''lng'', VNum (3 / 100))])]"
  let ?N = "[(''id'', VStr ''near''),
             (''location'', VDict [(''lat'', VNum 0), (''lng'', VNum (1 / 100))])]"
  let ?dF = "6371 * pi / 180"
  let ?dM = "6371 * pi / 6000"
  let ?dN = "6371 * pi / 18000"
  have "calculate_distance 0 0 0 1 = Inr (6371 * 1 * pi / 180)"
    by (rule calculate_distance_equator) simp_all
  then have dF: "restaurant_distance calculate_distance ?ul ?F = Inr ?dF"
    by (simp add: restaurant_distance_origin)
  have "calculate_distance 0 0 0 (3 / 100) = Inr (6371 * (3 / 100) * pi / 180)"
    by (rule calculate_distance_equator) simp_all
  then have dM: "restaurant_distance calculate_distance ?ul ?M = Inr ?dM"
    by (simp add: restaurant_distance_origin)
  have "calculate_distance 0 0 0 (1 / 100) = Inr (6371 * (1 / 100) * pi / 180)"
    by (rule calculate_distance_equator) simp_all
  then have dN: "restaurant_distance calculate_distance ?ul ?N = Inr ?dN"
    by (simp add: restaurant_distance_origin)
  have far: "5 < ?dF"
    using pi_ge_two by simp
  have mid: "?dM \<le> 5"
    using pi_less_4 by simp
  have near: "?dN \<le> 5"
    using pi_less_4 by simp
  have "py_round2 ?dN \<le> ?dN + 1 / 200"
    using py_round2_near [of ?dN] by simp
  moreover have "?dM - 1 / 200 \<le> py_round2 ?dM"
    using py_round2_near [of ?dM] by simp
  moreover have "?dN + 1 / 200 < ?dM - 1 / 200"
    using pi_ge_two by simp
  ultimately have lt: "py_round2 ?dN < py_round2 ?dM"
    by linarith
  have pre: "\<forall>r\<in>set [0::nat, 1, 2]. r < length [?F, ?M, ?N]
               \<and> (\<exists>d. restaurant_distance calculate_distance ?ul ([?F, ?M, ?N] ! r) = Inr d)"
  proof -
    have "\<exists>d. restaurant_distance calculate_distance ?ul ?F = Inr d"
      using dF by blast
    moreover have "\<exists>d. restaurant_distance calculate_distance ?ul ?M = Inr d"
      using dM by blast
    moreover have "\<exists>d. restaurant_distance calculate_distance ?ul ?N = Inr d"
      using dN by blast
    ultimately show ?thesis
      by simp
  qed
  from nearby_within_radius_sorted_by_rounded_distance [OF pre, of 5]
  obtain h' out
    where res: "get_nearby_restaurants calculate_distance ?ul [0, 1, 2] 5 [?F, ?M, ?N]
                  = (h', Inr out)"
      and m: "map ((!) h') out =
               sort_key distance_key
                 (map (\<lambda>r. with_distance calculate_distance ?ul ([?F, ?M, ?N] ! r))
                    (filter (\<lambda>r. true_distance calculate_distance ?ul ([?F, ?M, ?N] ! r) \<le> 5)
                       [0, 1, 2]))"
    by blast
  have tF: "true_distance calculate_distance ?ul ?F = ?dF"
    using dF by (rule true_distance_Inr)
  have tM: "true_distance calculate_distance ?ul ?M = ?dM"
    using dM by (rule true_distance_Inr)
  have tN: "true_distance calculate_distance ?ul ?N = ?dN"
    using dN by (rule true_distance_Inr)
  have sel: "filter (\<lambda>r. true_distance calculate_distance ?ul ([?F, ?M, ?N] ! r) \<le> 5) [0, 1, 2]
               = [1, 2]"
    using far mid near by (simp add: tF tM tN)
  have wM: "with_distance calculate_distance ?ul ?M = ?M @ [(''distance'', VNum (py_round2 ?dM))]"
    by (simp add: with_distance_def tM)
  have wN: "with_distance calculate_distance ?ul ?N = ?N @ [(''distance'', VNum (py_round2 ?dN))]"
    by (simp add: with_distance_def tN)
  have kM: "distance_key (?M @ [(''distance'', VNum (py_round2 ?dM))]) = py_round2 ?dM"
    by (simp add: distance_key_def)
  have kN: "distance_key (?N @ [(''distance'', VNum (py_round2 ?dN))]) = py_round2 ?dN"
    by (simp add: distance_key_def)
  have "map ((!) h') out =
          sort_key distance_key [?M @ [(''distance'', VNum (py_round2 ?dM))],
                                 ?N @ [(''distance'', VNum (py_round2 ?dN))]]"
    unfolding m sel using wM wN by simp
  also have "\<dots> = [?N @ [(''distance'', VNum (py_round2 ?dN))],
                   ?M @ [(''distance'', VNum (py_round2 ?dM))]]"
    using lt kM kN by simp
  finally have "map ((!) h') out = [?N @ [(''distance'', VNum (py_round2 ?dN))],
                   ?M @ [(''distance'', VNum (py_round2 ?dM))]]" .
  with res far lt show ?thesis
    by simp
qed

theorem nearby_leaves_input_records_unchanged_witness:
  "get_nearby_restaurants calculate_distance [(''lat'', VNum 0), (''lng'', VNum 0)] [0] 5
       [[(''id'', VStr ''rest1''),
         (''location'', VDict [(''lat'', VNum 0), (''lng'', VNum 0)])]]
     = ([[(''id'', VStr ''rest1''),
          (''location'', VDict [(''lat'', VNum 0), (''lng'', VNum 0)])],
         [(''id'', VStr ''rest1''),
          (''location'', VDict [(''lat'', VNum 0), (''lng'', VNum 0)]),
          (''distance'', VNum 0)]], Inr [1])
   \<and> take 1 [[(''id'', VStr ''rest1''),
          (''location'', VDict [(''lat'', VNum 0), (''lng'', VNum 0)])],
         [(''id'', VStr ''rest1''),
          (''location'', VDict [(''lat'', VNum 0), (''lng'', VNum 0)]),
          (''distance'', VNum 0)]]
     = [[(''id'', VStr ''rest1''),
          (''location'', VDict [(''lat'', VNum 0), (''lng'', VNum 0)])]]"
proof -
  let ?ul = "[(''lat'', VNum 0), (''lng'', VNum 0)]"
  let ?r = "[(''id'', VStr ''rest1''),
             (''location'', VDict [(''lat'', VNum 0), (''lng'', VNum 0)])]"
  let ?c = "[(''id'', VStr ''rest1''),
          (''location'', VDict [(''lat'', VNum 0), (''lng'', VNum 0)]),
          (''distance'', VNum 0)]"
  have r0: "py_round2 0 = 0"
    by (rule py_round2_small) simp_all
  have eq: "get_nearby_restaurants calculate_distance ?ul [0] 5 [?r] = ([?r, ?c], Inr [1])"
    by (simp add: get_nearby_restaurants_def restaurant_distance_origin calculate_distance_same
        copy_dict_def set_item_def r0)
  have v: "\<forall>r\<in>set [0::nat]. r < length [?r]"
    by simp
  from nearby_leaves_input_records_unchanged [OF v eq]
  have "take (length [?r]) [?r, ?c] = [?r]"
    by (rule conjunct1)
  then have "take 1 [?r, ?c] = [?r]"
    by simp
  with eq show ?thesis
    by (rule conjI)
qed

text \<open>
  C4 (as stated). The user is at (0, 0); restaurant A lies 0.00001 degrees east on the
  equator (about 1.1 m away) and restaurant B at the user's place. Both distances round to
  0.0, so the stable sort keeps the input order: A is returned before B although A is
  farther, and A's annotation 0.0 is not its computed distance.
\<close>

theorem nearby_rounded_annotation_counterexample:
  "get_nearby_restaurants calculate_distance [(''lat'', VNum 0), (''lng'', VNum 0)] [0, 1] 5
       [[(''id'', VStr ''A''),
         (''location'', VDict [(''lat'', VNum 0), (''lng'', VNum (1 / 100000))])],
        [(''id'', VStr ''B''),
         (''location'', VDict [(''lat'', VNum 0), (''lng'', VNum 0)])]]
     = ([[(''id'', VStr ''A''),
          (''location'', VDict [(''lat'', VNum 0), (''lng'', VNum (1 / 100000))])],
         [(''id'', VStr ''B''),
          (''location'', VDict [(''lat'', VNum 0), (''lng'', VNum 0)])],
         [(''id'', VStr ''A''),
          (''location'', VDict [(''lat'', VNum 0), (''lng'', VNum (1 / 100000))]),
          (''distance'', VNum 0)],
         [(''id'', VStr ''B''),
          (''location'', VDict [(''lat'', VNum 0), (''lng'', VNum 0)]),
          (''distance'', VNum 0)]], Inr [2, 3])
   \<and> restaurant_distance calculate_distance [(''lat'', VNum 0), (''lng'', VNum 0)]
         [(''id'', VStr ''A''),
          (''location'', VDict [(''lat'', VNum 0), (''lng'', VNum (1 / 100000))])]
       = Inr (6371 * pi / 18000000)
   \<and> restaurant_distance calculate_distance [(''lat'', VNum 0), (''lng'', VNum 0)]
         [(''id'', VStr ''B''),
          (''location'', VDict [(''lat'', VNum 0), (''lng'', VNum 0)])]
       = Inr 0
   \<and> 0 < 6371 * pi / 18000000"
proof -
  let ?ul = "[(''lat'', VNum 0), (''lng'', VNum 0)]"
  let ?A = "[(''id'', VStr ''A''),
             (''location'', VDict [(''lat'', VNum 0), (''lng'', VNum (1 / 100000))])]"
  let ?B = "[(''id'', VStr ''B''),
             (''location'', VDict [(''lat'', VNum 0), (''lng'', VNum 0)])]"
  let ?d = "6371 * pi / 18000000"
  have "calculate_distance 0 0 0 (1 / 100000) = Inr (6371 * (1 / 100000) * pi / 180)"
    by (rule calculate_distance_equator) simp_all
  then have dA: "restaurant_distance calculate_distance ?ul ?A = Inr ?d"
    by (simp add: restaurant_distance_origin)
  have dB: "restaurant_distance calculate_distance ?ul ?B = Inr 0"
    by (simp add: restaurant_distance_origin calculate_distance_same)
  have pos: "0 < ?d"
    by simp
  have "?d < 6371 * 4 / 18000000"
    using pi_less_4 by simp
  then have small: "?d < 1 / 200" "?d \<le> 5"
    by simp_all
  have rA: "py_round2 ?d = 0"
    using pos small(1) by (intro py_round2_small) simp_all
  have rB: "py_round2 0 = 0"
    by (rule py_round2_small) simp_all
  have "get_nearby_restaurants calculate_distance ?ul [0, 1] 5 [?A, ?B]
          = ([?A, ?B, ?A @ [(''distance'', VNum 0)], ?B @ [(''distance'', VNum 0)]], Inr [2, 3])"
    using small(2)
    by (simp add: get_nearby_restaurants_def dA dB copy_dict_def set_item_def rA rB
        distance_key_def)
  then show ?thesis
    using dA dB pos by simp
qed

section \<open>Properties of the order lifecycle\<close>

lemma digit_char_code: "d < 10 \<Longrightarrow> of_char (digit_char d) = 48 + d"
proof -
  assume "d < 10"
  then have "d = 0 \<or> d = 1 \<or> d = 2 \<or> d = 3 \<or> d = 4 \<or> d = 5 \<or> d = 6 \<or> d = 7 \<or> d = 8 \<or> d = 9"
    by arith
  then show ?thesis
    by (elim disjE) (simp_all add: digit_char_def)
qed

lemma digit_char_inj:
  assumes "a < 10" and "b < 10" and "digit_char a = digit_char b"
  shows "a = b"
proof -
  have "(of_char (digit_char a) :: nat) = of_char (digit_char b)"
    using assms(3) by simp
  then show ?thesis
    using assms(1,2) by (simp add: digit_char_code)
qed

lemma str_nat_nonempty: "str_nat n \<noteq> []"
  by (subst str_nat.simps) simp

lemma str_nat_inj: "str_nat m = str_nat n \<Longrightarrow> m = n"
proof (induction m arbitrary: n rule: str_nat.induct)
  case (1 m)
  show ?case
  proof (cases "m < 10")
    case True
    then have m: "str_nat m = [digit_char m]"
      by (subst str_nat.simps) simp
    show ?thesis
    proof (cases "n < 10")
      case n: True
      then have "str_nat n = [digit_char n]"
        by (subst str_nat.simps) simp
      then show ?thesis
        using m "1.prems" True n digit_char_inj by simp
    next
      case False
      then have "str_nat n = str_nat (n div 10) @ [digit_char (n mod 10)]"
        by (subst str_nat.simps) simp
      then have "str_nat (n div 10) = []"
        using m "1.prems" by simp
      then show ?thesis
        using str_nat_nonempty by blast
    qed
  next
    case False
    then have m: "str_nat m = str_nat (m div 10) @ [digit_char (m mod 10)]"
      by (subst str_nat.simps) simp
    show ?thesis
    proof (cases "n < 10")
      case True
      then have "str_nat n = [digit_char n]"
        by (subst str_nat.simps) simp
      then have "str_nat (m div 10) = []"
        using m "1.prems" by simp
      then show ?thesis
        using str_nat_nonempty by blast
    next
      case n: False
      then have "str_nat n = str_nat (n div 10) @ [digit_char (n mod 10)]"
        by (subst str_nat.simps) simp
      then have e: "str_nat (m div 10) = str_nat (n div 10)"
        "digit_char (m mod 10) = digit_char (n mod 10)"
        using m "1.prems" by simp_all
      from "1.IH" [OF False e(1)] have "m div 10 = n div 10" .
      moreover have "m mod 10 = n mod 10"
        using e(2) by (intro digit_char_inj) simp_all
      ultimately show ?thesis
        by (metis div_mult_mod_eq)
    qed
  qed
qed

lemma wf_ordersD: "wf_orders os \<Longrightarrow> k < length os \<Longrightarrow> wf_order k (os ! k)"
  by (simp add: wf_orders_def)

lemma wf_order_id_inj:
  assumes "wf_order i x" and "wf_order j y" and "map_of x ''id'' = map_of y ''id''"
  shows "i = j"
proof -
  have "str_nat (Suc i) = str_nat (Suc j)"
    using assms by (simp add: wf_order_def)
  then have "Suc i = Suc j"
    by (rule str_nat_inj)
  then show ?thesis by simp
qed

lemma replace_first_self:
  assumes wf: "wf_orders os" and p: "p < length os"
  shows "replace_first (os ! p) os = Inr (Some os)"
proof -
  let ?rid = "VStr (''order'' @ str_nat (Suc p))"
  have rid: "map_of (os ! p) ''id'' = Some ?rid"
    using wf_ordersD [OF wf p] by (simp add: wf_order_def)
  have all: "\<forall>u\<in>set os. map_of u ''id'' \<noteq> None"
  proof
    fix u
    assume "u \<in> set os"
    then obtain k where "k < length os" "u = os ! k"
      by (auto simp: in_set_conv_nth)
    then show "map_of u ''id'' \<noteq> None"
      using wf_ordersD [OF wf, of k] by (simp add: wf_order_def)
  qed
  have ex: "\<exists>u\<in>set os. map_of u ''id'' = Some ?rid"
    using rid p by (intro bexI [of _ "os ! p"]) simp_all
  from replace_first_match [OF rid all ex]
  obtain i where i: "i < length os" "map_of (os ! i) ''id'' = Some ?rid"
    "replace_first (os ! p) os = Inr (Some (os[i := os ! p]))"
    by blast
  have "i = p"
    using wf_order_id_inj [OF wf_ordersD [OF wf i(1)] wf_ordersD [OF wf p]] i(2) rid by simp
  then show ?thesis
    using i(3) by simp
qed

lemma orders_save [simp]: "orders (mem (save_data_to_file w s)) = orders (mem s)"
  by (simp add: save_data_to_file_def)

lemma disk_save: "disk (save_data_to_file w s) = (if w then mem s else disk s)"
  by (simp add: save_data_to_file_def)

lemma orders_set_status [simp]:
  "orders (mem (set_status p st s)) =
     (orders (mem s))[p := AList.update ''status'' (VStr st) (orders (mem s) ! p)]"
  by (simp add: set_status_def)

lemma disk_set_status [simp]: "disk (set_status p st s) = disk s"
  by (simp add: set_status_def)

lemma lookup_update_status:
  "k \<noteq> ''status'' \<Longrightarrow> lookup (AList.update ''status'' v x) k = lookup x k"
  by (simp add: lookup_def map_of_update_other)

lemma render_new_status: "render_new (AList.update ''status'' v x) = render_new x"
  by (simp add: render_new_def lookup_update_status split: sum.splits option.splits)

lemma wf_order_status:
  assumes "wf_order k x" and "st \<in> set order_statuses"
  shows "wf_order k (AList.update ''status'' (VStr st) x)"
  using assms unfolding wf_order_def
  by (simp add: map_of_update_same map_of_update_other render_new_status)

lemma wf_orders_update:
  assumes wf: "wf_orders os" and st: "st \<in> set order_statuses"
  shows "wf_orders (os[p := AList.update ''status'' (VStr st) (os ! p)])"
  unfolding wf_orders_def
proof (intro allI impI)
  fix k
  assume "k < length (os[p := AList.update ''status'' (VStr st) (os ! p)])"
  then have k: "k < length os"
    by simp
  show "wf_order k (os[p := AList.update ''status'' (VStr st) (os ! p)] ! k)"
  proof (cases "k = p")
    case True
    then show ?thesis
      using k wf_order_status [OF wf_ordersD [OF wf k] st] by simp
  next
    case False
    then show ?thesis
      using k wf_ordersD [OF wf k] by simp
  qed
qed

text \<open>
  On a well-formed store, whatever happens after the status is set, the orders after a
  vendor action are the orders before with the new status at that position.
\<close>

lemma vendor_action_state:
  assumes wf: "wf_orders (orders (mem s))" and p: "p < length (orders (mem s))"
    and st: "st \<in> set order_statuses"
  shows "orders (mem (fst (vendor_action u st p s)))
           = (orders (mem s))[p := AList.update ''status'' (VStr st) (orders (mem s) ! p)]
       \<and> (disk (fst (vendor_action u st p s)) = disk s
          \<or> disk (fst (vendor_action u st p s)) = mem (fst (vendor_action u st p s)))"
proof -
  let ?s1 = "set_status p st s"
  let ?os1 = "orders (mem ?s1)"
  have wf1: "wf_orders ?os1"
    using wf_orders_update [OF wf st] by simp
  have p1: "p < length ?os1"
    using p by simp
  have rf: "replace_first (?os1 ! p) ?os1 = Inr (Some ?os1)"
    using wf1 p1 by (rule replace_first_self)
  have same: "(mem ?s1)\<lparr>orders := ?os1\<rparr> = mem ?s1"
    by simp
  have upd: "update_order w (?os1 ! p) ?s1 = Inr (True, save_data_to_file w ?s1)" for w
    using rf by (simp add: update_order_def update_record_def same del: orders_set_status)
  have cases: "fst (vendor_action u st p s) = ?s1
             \<or> fst (vendor_action u st p s) = save_data_to_file (write_ok u) ?s1"
    unfolding vendor_action_def Let_def upd
    by (simp split: sum.splits option.splits)
  then show ?thesis
  proof
    assume "fst (vendor_action u st p s) = ?s1"
    then show ?thesis by simp
  next
    assume "fst (vendor_action u st p s) = save_data_to_file (write_ok u) ?s1"
    then show ?thesis
      by (simp add: disk_save save_data_to_file_def)
  qed
qed

lemma select_by_sound:
  assumes "select_by k P os ps = Inr qs"
  shows "\<forall>q\<in>set qs. q \<in> set ps \<and> (\<exists>v. map_of (os ! q) k = Some v \<and> P v)"
  using assms
proof (induction ps arbitrary: qs)
  case Nil
  then show ?case by simp
next
  case (Cons p ps)
  from Cons.prems obtain v where v: "map_of (os ! p) k = Some v"
    by (cases "map_of (os ! p) k") (simp_all add: lookup_def)
  from Cons.prems v obtain rs where rs: "select_by k P os ps = Inr rs"
    "qs = (if P v then p # rs else rs)"
    by (cases "select_by k P os ps") (simp_all add: lookup_def)
  from Cons.IH [OF rs(1)] have ih: "\<forall>q\<in>set rs. q \<in> set ps \<and> (\<exists>v. map_of (os ! q) k = Some v \<and> P v)" .
  show ?case
  proof
    fix q
    assume "q \<in> set qs"
    then have "(q = p \<and> P v) \<or> q \<in> set rs"
      using rs(2) by (cases "P v") simp_all
    then show "q \<in> set (p # ps) \<and> (\<exists>v. map_of (os ! q) k = Some v \<and> P v)"
      using v ih by auto
  qed
qed

lemma select_by_complete:
  assumes "select_by k P os ps = Inr qs" and "p \<in> set ps" and "map_of (os ! p) k = Some v"
    and "P v"
  shows "p \<in> set qs"
  using assms(1,2)
proof (induction ps arbitrary: qs)
  case Nil
  then show ?case by simp
next
  case (Cons a ps)
  from Cons.prems(1) obtain w where w: "map_of (os ! a) k = Some w"
    by (cases "map_of (os ! a) k") (simp_all add: lookup_def)
  from Cons.prems(1) w obtain rs where rs: "select_by k P os ps = Inr rs"
    "qs = (if P w then a # rs else rs)"
    by (cases "select_by k P os ps") (simp_all add: lookup_def)
  show ?case
  proof (cases "p = a")
    case True
    then show ?thesis
      using rs(2) w assms(3,4) by simp
  next
    case False
    then have "p \<in> set ps"
      using Cons.prems(2) by simp
    from Cons.IH [OF rs(1) this] show ?thesis
      using rs(2) by simp
  qed
qed

lemma new_orders_loop_result:
  assumes "new_orders_loop u click ps s = Some r"
  shows "fst r = s \<or> (\<exists>p\<in>set ps. r = vendor_action u ''preparing'' p s
                                  \<or> r = vendor_action u ''cancelled'' p s)"
  using assms
proof (induction ps)
  case Nil
  then show ?case by simp
next
  case (Cons p ps)
  then show ?case
    by (auto simp: Let_def split: option.splits sum.splits if_splits)
qed

lemma preparing_loop_result:
  assumes "preparing_loop u click ps s = Some r"
  shows "fst r = s \<or> (\<exists>p\<in>set ps. r = vendor_action u ''out_for_delivery'' p s)"
  using assms
proof (induction ps)
  case Nil
  then show ?case by simp
next
  case (Cons p ps)
  then show ?case
    by (auto simp: Let_def split: option.splits sum.splits if_splits)
qed

lemma out_for_delivery_loop_result:
  assumes "out_for_delivery_loop u click ps s = Some r"
  shows "fst r = s \<or> (\<exists>p\<in>set ps. r = vendor_action u ''delivered'' p s)"
  using assms
proof (induction ps)
  case Nil
  then show ?case by simp
next
  case (Cons p ps)
  then show ?case
    by (auto simp: Let_def split: option.splits sum.splits if_splits)
qed

lemma edge_target_status: "e \<in> set status_edges \<Longrightarrow> snd e \<in> set order_statuses"
  by (auto simp: status_edges_def order_statuses_def)

lemma movedI:
  assumes "p < length os" and "e \<in> set status_edges"
    and "map_of (os ! p) ''status'' = Some (VStr (fst e))"
    and "os' = os[p := AList.update ''status'' (VStr (snd e)) (os ! p)]"
  shows "moved os os'"
  unfolding moved_def using assms by blast

lemma moved_refl: "moved os os"
  by (simp add: moved_def)

lemma vendor_action_moved:
  assumes wf: "wf_orders (orders (mem s))" and p: "p < length (orders (mem s))"
    and e: "(a, b) \<in> set status_edges"
    and a: "map_of (orders (mem s) ! p) ''status'' = Some (VStr a)"
  shows "moved (orders (mem s)) (orders (mem (fst (vendor_action u b p s))))
       \<and> (disk (fst (vendor_action u b p s)) = disk s
          \<or> disk (fst (vendor_action u b p s)) = mem (fst (vendor_action u b p s)))"
proof -
  have b: "b \<in> set order_statuses"
    using edge_target_status [OF e] by simp
  from vendor_action_state [OF wf p b, of u]
  have o: "orders (mem (fst (vendor_action u b p s)))
           = (orders (mem s))[p := AList.update ''status'' (VStr b) (orders (mem s) ! p)]"
    and d: "disk (fst (vendor_action u b p s)) = disk s
          \<or> disk (fst (vendor_action u b p s)) = mem (fst (vendor_action u b p s))"
    by blast+
  have "moved (orders (mem s)) (orders (mem (fst (vendor_action u b p s))))"
    using p e a o by (intro movedI [of p _ "(a, b)"]) simp_all
  with d show ?thesis
    by blast
qed

lemma show_vendor_tracking_effect:
  assumes wf: "wf_orders (orders (mem s))" and ps: "\<forall>p\<in>set ps. p < length (orders (mem s))"
  shows "moved (orders (mem s)) (orders (mem (fst (show_vendor_tracking u click ps s))))
       \<and> (disk (fst (show_vendor_tracking u click ps s)) = disk s
          \<or> disk (fst (show_vendor_tracking u click ps s))
               = mem (fst (show_vendor_tracking u click ps s)))"
proof -
  let ?os = "orders (mem s)"
  define good :: "app_state \<Rightarrow> bool" where "good s' \<longleftrightarrow> moved ?os (orders (mem s'))
       \<and> (disk s' = disk s \<or> disk s' = mem s')" for s'
  have g0: "good s"
    by (simp add: good_def moved_refl)
  have act: "good (fst (vendor_action u b p s))"
    if "q = p" "p \<in> set qs" "select_by ''status'' (\<lambda>v. v = VStr a) ?os ps = Inr qs"
      "(a, b) \<in> set status_edges" for a b p q qs
  proof -
    from select_by_sound [OF that(3)] that(2)
    have "p \<in> set ps" "map_of (?os ! p) ''status'' = Some (VStr a)"
      by auto
    then show ?thesis
      unfolding good_def using ps that(4) by (intro vendor_action_moved [OF wf]) simp_all
  qed
  have gn: "good (fst r)"
    if "new_orders_loop u click qs s = Some r"
      "select_by ''status'' (\<lambda>v. v = VStr ''confirmed'') ?os ps = Inr qs" for r qs
  proof -
    from new_orders_loop_result [OF that(1)]
    consider "fst r = s" | p where "p \<in> set qs" "r = vendor_action u ''preparing'' p s"
      | p where "p \<in> set qs" "r = vendor_action u ''cancelled'' p s"
      by blast
    then show ?thesis
    proof cases
      case 1
      then show ?thesis using g0 by simp
    next
      case 2
      then show ?thesis
        using act [of p p qs "''confirmed''" "''preparing''"] that(2)
        by (simp add: status_edges_def)
    next
      case 3
      then show ?thesis
        using act [of p p qs "''confirmed''" "''cancelled''"] that(2)
        by (simp add: status_edges_def)
    qed
  qed
  have gp: "good (fst r)"
    if "preparing_loop u click qs s = Some r"
      "select_by ''status'' (\<lambda>v. v = VStr ''preparing'') ?os ps = Inr qs" for r qs
  proof -
    from preparing_loop_result [OF that(1)]
    consider "fst r = s" | p where "p \<in> set qs" "r = vendor_action u ''out_for_delivery'' p s"
      by blast
    then show ?thesis
    proof cases
      case 1
      then show ?thesis using g0 by simp
    next
      case 2
      then show ?thesis
        using act [of p p qs "''preparing''" "''out_for_delivery''"] that(2)
        by (simp add: status_edges_def)
    qed
  qed
  have gd: "good (fst r)"
    if "out_for_delivery_loop u click qs s = Some r"
      "select_by ''status'' (\<lambda>v. v = VStr ''out_for_delivery'') ?os ps = Inr qs" for r qs
  proof -
    from out_for_delivery_loop_result [OF that(1)]
    consider "fst r = s" | p where "p \<in> set qs" "r = vendor_action u ''delivered'' p s"
      by blast
    then show ?thesis
    proof cases
      case 1
      then show ?thesis using g0 by simp
    next
      case 2
      then show ?thesis
        using act [of p p qs "''out_for_delivery''" "''delivered''"] that(2)
        by (simp add: status_edges_def)
    qed
  qed
  have "good (fst (show_vendor_tracking u click ps s))"
  proof (cases "select_by ''status'' (\<lambda>v. v = VStr ''confirmed'') ?os ps")
    case (Inl e)
    then show ?thesis
      by (simp add: show_vendor_tracking_def g0)
  next
    case n: (Inr new_orders)
    show ?thesis
    proof (cases "select_by ''status'' (\<lambda>v. v = VStr ''preparing'') ?os ps")
      case (Inl e)
      then show ?thesis
        by (simp add: show_vendor_tracking_def n g0)
    next
      case pr: (Inr preparing_orders)
      show ?thesis
      proof (cases "select_by ''status'' (\<lambda>v. v = VStr ''out_for_delivery'') ?os ps")
        case (Inl e)
        then show ?thesis
          by (simp add: show_vendor_tracking_def n pr g0)
      next
        case ou: (Inr out_orders)
        show ?thesis
        proof (cases "select_by ''status''
                        (\<lambda>v. v = VStr ''delivered'' \<or> v = VStr ''cancelled'') ?os ps")
          case (Inl e)
          then show ?thesis
            by (simp add: show_vendor_tracking_def n pr ou g0)
        next
          case co: (Inr completed_orders)
          have unf: "show_vendor_tracking u click ps s =
              (if ps = [] then (s, None)
               else case new_orders_loop u click new_orders s of Some r \<Rightarrow> r | None \<Rightarrow>
                    case preparing_loop u click preparing_orders s of Some r \<Rightarrow> r | None \<Rightarrow>
                    case out_for_delivery_loop u click out_orders s of
                      Some r \<Rightarrow> r
                    | None \<Rightarrow>
                        if completed_orders \<noteq> [] \<and> click = ViewCompleted
                        then (s, render_completed u (map ((!) ?os) completed_orders))
                        else (s, None))"
            by (simp add: show_vendor_tracking_def n pr ou co)
          show ?thesis
          proof (cases "ps = []")
            case True
            show ?thesis
              unfolding unf using True g0 by simp
          next
            case False
            show ?thesis
            proof (cases "new_orders_loop u click new_orders s")
              case (Some r)
              then show ?thesis
                unfolding unf using gn [OF Some n] False Some by simp
            next
              case nl: None
              show ?thesis
              proof (cases "preparing_loop u click preparing_orders s")
                case (Some r)
                then show ?thesis
                  unfolding unf using gp [OF Some pr] False nl Some by simp
              next
                case pl: None
                show ?thesis
                proof (cases "out_for_delivery_loop u click out_orders s")
                  case (Some r)
                  then show ?thesis
                    unfolding unf using gd [OF Some ou] False nl pl Some by simp
                next
                  case None
                  then show ?thesis
                    unfolding unf using False nl pl g0 by simp
                qed
              qed
            qed
          qed
        qed
      qed
    qed
  qed
  then show ?thesis
    by (simp add: good_def)
qed

lemma vendor_page_effect:
  assumes wf: "wf_orders (orders (mem s))"
  shows "moved (orders (mem s)) (orders (mem (fst (vendor_page u click rid s))))
       \<and> (disk (fst (vendor_page u click rid s)) = disk s
          \<or> disk (fst (vendor_page u click rid s)) = mem (fst (vendor_page u click rid s)))"
proof (cases "select_by ''restaurant_id'' (\<lambda>v. v = rid) (orders (mem s))
                [0 ..< length (orders (mem s))]")
  case (Inl e)
  then show ?thesis
    by (simp add: vendor_page_def moved_refl)
next
  case (Inr ps)
  from select_by_sound [OF Inr] have "\<forall>p\<in>set ps. p < length (orders (mem s))"
    by auto
  from show_vendor_tracking_effect [OF wf this, of u click] show ?thesis
    using Inr by (simp add: vendor_page_def)
qed

lemma display_order_tracking_effect:
  assumes p: "p < length (orders (mem s))"
  shows "moved (orders (mem s)) (orders (mem (fst (display_order_tracking rnd sim p s))))
       \<and> disk (fst (display_order_tracking rnd sim p s)) = disk s"
proof -
  let ?os = "orders (mem s)"
  have a: "moved ?os (orders (mem (set_status p ''preparing'' s)))"
    if "lookup (?os ! p) ''status'' = Inr (VStr ''confirmed'')"
    using that p
    by (intro movedI [of p _ "(''confirmed'', ''preparing'')"])
       (simp_all add: status_edges_def lookup_def split: option.splits)
  have b: "moved ?os (orders (mem (set_status p ''out_for_delivery'' s)))"
    if "lookup (?os ! p) ''status'' = Inr (VStr ''preparing'')"
    using that p
    by (intro movedI [of p _ "(''preparing'', ''out_for_delivery'')"])
       (simp_all add: status_edges_def lookup_def split: option.splits)
  show ?thesis
    unfolding display_order_tracking_def Let_def
    using a b by (auto split: sum.splits simp: moved_refl simp del: orders_set_status)
qed

lemma all_strings_map: "all_strings (map VStr xs)"
  by (induction xs) simp_all

lemma place_order_effect:
  "(snd (place_order w now c s) = s
    \<or> (\<exists>ord. fst (place_order w now c s) = Some ord
          \<and> orders (mem (snd (place_order w now c s))) = orders (mem s) @ [ord]
          \<and> wf_order (length (orders (mem s))) ord
          \<and> map_of ord ''status'' = Some (VStr ''confirmed'')
          \<and> co_delivery_address c \<noteq> []))
   \<and> (disk (snd (place_order w now c s)) = disk s
      \<or> disk (snd (place_order w now c s)) = mem (snd (place_order w now c s)))"
proof (cases "co_delivery_address c = []")
  case True
  then show ?thesis
    by (simp add: place_order_def)
next
  case False
  let ?ord = "AList.update ''id''
                (VStr (''order'' @ str_nat (Suc (length (orders (mem s)))))) (checkout_order c)"
  have k: "map_of (checkout_order c) ''id'' = None"
    "map_of ?ord ''created_at'' = Some (VNum (co_created_at c))"
    "map_of ?ord ''status'' = Some (VStr ''confirmed'')"
    "map_of ?ord ''restaurant_id'' = Some (co_restaurant_id c)"
    "map_of ?ord ''id'' = Some (VStr (''order'' @ str_nat (Suc (length (orders (mem s))))))"
    by (simp_all add: checkout_order_def map_of_update_same map_of_update_other)
  have rn: "render_new ?ord = None"
    by (simp add: render_new_def lookup_def checkout_order_def all_strings_map)
  have ao: "add_order w now (checkout_order c) s
          = (?ord, save_data_to_file w (s\<lparr>mem := (mem s)\<lparr>orders := orders (mem s) @ [?ord]\<rparr>\<rparr>))"
    using k(1,2,3) by (simp add: add_order_def Let_def)
  have wfo: "wf_order (length (orders (mem s))) ?ord"
    unfolding wf_order_def using k rn by (simp add: order_statuses_def)
  have po: "place_order w now c s
          = (Some ?ord, save_data_to_file w (s\<lparr>mem := (mem s)\<lparr>orders := orders (mem s) @ [?ord]\<rparr>\<rparr>))"
    using False by (simp add: place_order_def ao)
  show ?thesis
    unfolding po using wfo k(3) False by (simp add: disk_save save_data_to_file_def)
qed

lemma moved_length: "moved os os' \<Longrightarrow> length os' = length os"
  unfolding moved_def by auto

lemma moved_wf:
  assumes "wf_orders os" and "moved os os'"
  shows "wf_orders os'"
  using assms(2) unfolding moved_def
proof (elim disjE exE conjE bexE)
  assume "os' = os"
  then show ?thesis
    using assms(1) by simp
next
  fix p e
  assume "e \<in> set status_edges"
    and "os' = os[p := AList.update ''status'' (VStr (snd e)) (os ! p)]"
  then show ?thesis
    using wf_orders_update [OF assms(1) edge_target_status] by simp
qed

lemma moved_nth:
  assumes "moved os os'" and "p < length os"
  shows "os' ! p = os ! p
       \<or> (\<exists>e\<in>set status_edges. map_of (os ! p) ''status'' = Some (VStr (fst e))
              \<and> os' ! p = AList.update ''status'' (VStr (snd e)) (os ! p))"
  using assms(1) unfolding moved_def
proof (elim disjE exE conjE bexE)
  assume "os' = os"
  then show ?thesis by simp
next
  fix q e
  assume q: "q < length os" and e: "e \<in> set status_edges"
    and st: "map_of (os ! q) ''status'' = Some (VStr (fst e))"
    and os': "os' = os[q := AList.update ''status'' (VStr (snd e)) (os ! q)]"
  show ?thesis
  proof (cases "p = q")
    case True
    then have "os' ! p = AList.update ''status'' (VStr (snd e)) (os ! p)"
      using os' q by simp
    then show ?thesis
      using e st True by blast
  next
    case False
    then show ?thesis
      using os' by simp
  qed
qed

lemma moved_chain:
  assumes "moved os os'" and "p < length os"
  shows "follows_chain (map_of (os ! p) ''status'') (map_of (os' ! p) ''status'')"
  using moved_nth [OF assms]
proof (elim disjE bexE conjE)
  assume "os' ! p = os ! p"
  then show ?thesis
    by (simp add: follows_chain_def)
next
  fix e
  assume "e \<in> set status_edges" "map_of (os ! p) ''status'' = Some (VStr (fst e))"
    "os' ! p = AList.update ''status'' (VStr (snd e)) (os ! p)"
  then show ?thesis
    unfolding follows_chain_def by (intro disjI2 bexI [of _ e]) (simp_all add: map_of_update_same)
qed

lemma moved_terminal:
  assumes "moved os os'" and "p < length os"
    and "map_of (os ! p) ''status'' = Some (VStr ''cancelled'')
         \<or> map_of (os ! p) ''status'' = Some (VStr ''delivered'')"
  shows "os' ! p = os ! p"
  using moved_nth [OF assms(1,2)]
proof (elim disjE bexE conjE)
  assume "os' ! p = os ! p"
  then show ?thesis .
next
  fix e
  assume "e \<in> set status_edges" "map_of (os ! p) ''status'' = Some (VStr (fst e))"
  then have False
    using assms(3) by (auto simp: status_edges_def)
  then show ?thesis ..
qed

text \<open>What one step does to the orders in memory and in the file.\<close>

lemma step_effect:
  assumes wf: "wf_orders (orders (mem s))"
  shows "(moved (orders (mem s)) (orders (mem (step a s)))
          \<or> (\<exists>ord. orders (mem (step a s)) = orders (mem s) @ [ord]
                \<and> wf_order (length (orders (mem s))) ord))
       \<and> (orders (disk (step a s)) = orders (disk s)
          \<or> orders (disk (step a s)) = orders (mem (step a s)))"
proof (cases a)
  case (PlaceOrder w now c)
  from place_order_effect [of w now c s] show ?thesis
    unfolding PlaceOrder step.simps
    by (elim conjE disjE exE) (simp_all add: moved_refl)
next
  case (VendorPage u click rid)
  from vendor_page_effect [OF wf, of u click rid] show ?thesis
    unfolding VendorPage step.simps by auto
next
  case (TrackOrder rnd sim p)
  show ?thesis
  proof (cases "p < length (orders (mem s))")
    case True
    from display_order_tracking_effect [OF True, of rnd sim] show ?thesis
      unfolding TrackOrder step.simps using True by simp
  next
    case False
    then show ?thesis
      unfolding TrackOrder step.simps by (simp add: moved_refl)
  qed
next
  case (Other d saved)
  then show ?thesis
    by (simp add: moved_refl save_data_to_file_def)
qed

lemma wf_orders_snoc:
  assumes "wf_orders os" and "wf_order (length os) ord"
  shows "wf_orders (os @ [ord])"
  unfolding wf_orders_def
proof (intro allI impI)
  fix k
  assume "k < length (os @ [ord])"
  then have "k < length os \<or> k = length os"
    by auto
  then show "wf_order k ((os @ [ord]) ! k)"
    using assms wf_ordersD [of os k] by (auto simp: nth_append)
qed

lemma step_wf:
  assumes "wf_orders (orders (mem s))" and "wf_orders (orders (disk s))"
  shows "wf_orders (orders (mem (step a s))) \<and> wf_orders (orders (disk (step a s)))"
proof -
  from step_effect [OF assms(1), of a]
  have m: "moved (orders (mem s)) (orders (mem (step a s)))
          \<or> (\<exists>ord. orders (mem (step a s)) = orders (mem s) @ [ord]
                \<and> wf_order (length (orders (mem s))) ord)"
    and d: "orders (disk (step a s)) = orders (disk s)
          \<or> orders (disk (step a s)) = orders (mem (step a s))"
    by blast+
  from m have w: "wf_orders (orders (mem (step a s)))"
  proof
    assume "moved (orders (mem s)) (orders (mem (step a s)))"
    with assms(1) show ?thesis
      by (rule moved_wf)
  next
    assume "\<exists>ord. orders (mem (step a s)) = orders (mem s) @ [ord]
                \<and> wf_order (length (orders (mem s))) ord"
    then show ?thesis
      using wf_orders_snoc [OF assms(1)] by auto
  qed
  from d w assms(2) show ?thesis
    by auto
qed

lemma step_nth:
  assumes wf: "wf_orders (orders (mem s))" and p: "p < length (orders (mem s))"
  shows "p < length (orders (mem (step a s)))
       \<and> follows_chain (map_of (orders (mem s) ! p) ''status'')
                       (map_of (orders (mem (step a s)) ! p) ''status'')
       \<and> (map_of (orders (mem s) ! p) ''status'' = Some (VStr ''cancelled'')
          \<or> map_of (orders (mem s) ! p) ''status'' = Some (VStr ''delivered'')
          \<longrightarrow> orders (mem (step a s)) ! p = orders (mem s) ! p)"
proof -
  from step_effect [OF wf, of a]
  have "moved (orders (mem s)) (orders (mem (step a s)))
          \<or> (\<exists>ord. orders (mem (step a s)) = orders (mem s) @ [ord])"
    by blast
  then show ?thesis
  proof
    assume m: "moved (orders (mem s)) (orders (mem (step a s)))"
    show ?thesis
      using moved_length [OF m] moved_chain [OF m p] moved_terminal [OF m p] p by simp
  next
    assume "\<exists>ord. orders (mem (step a s)) = orders (mem s) @ [ord]"
    then show ?thesis
      using p by (auto simp: nth_append follows_chain_def)
  qed
qed

text \<open>
  What one step of the system does to the sessions: a session started earlier stays, and
  its store is changed by its own operations only.
\<close>

lemma sys_step_in_session:
  assumes "i < length (sessions S)"
  shows "sessions (sys_step (InSession i a) S) ! i = mem (step a (session_state i S))
       \<and> data_file (sys_step (InSession i a) S) = disk (step a (session_state i S))
       \<and> length (sessions (sys_step (InSession i a) S)) = length (sessions S)"
  using assms by (simp add: Let_def)

lemma sys_step_session:
  assumes i: "i < length (sessions S)"
  shows "i < length (sessions (sys_step a S))
       \<and> (sessions (sys_step a S) ! i = sessions S ! i
          \<or> (\<exists>b. sessions (sys_step a S) ! i = mem (step b (session_state i S))))"
proof (cases a)
  case (StartSession readable)
  then show ?thesis
    using i by (simp add: nth_append)
next
  case (InSession j b)
  show ?thesis
  proof (cases "j < length (sessions S)")
    case True
    show ?thesis
    proof (cases "j = i")
      case True
      then show ?thesis
        unfolding InSession using sys_step_in_session [OF i, of b] i by auto
    next
      case False
      then show ?thesis
        unfolding InSession using i by (simp add: Let_def)
    qed
  next
    case False
    then show ?thesis
      unfolding InSession using i by simp
  qed
qed

lemma wf_orders_Nil: "wf_orders []"
  by (simp add: wf_orders_def)

lemma sys_step_wf:
  assumes f: "wf_orders (orders (data_file S))"
    and m: "\<forall>i<length (sessions S). wf_orders (orders (sessions S ! i))"
  shows "wf_orders (orders (data_file (sys_step a S)))
       \<and> (\<forall>i<length (sessions (sys_step a S)). wf_orders (orders (sessions (sys_step a S) ! i)))"
proof (cases a)
  case (StartSession readable)
  let ?new = "if readable then data_file S else empty_store"
  have n: "wf_orders (orders ?new)"
    using f by (simp add: empty_store_def wf_orders_Nil)
  have "wf_orders (orders ((sessions S @ [?new]) ! i))" if "i < length (sessions S @ [?new])" for i
  proof (cases "i < length (sessions S)")
    case True
    then show ?thesis
      using m by (simp add: nth_append)
  next
    case False
    then have "i = length (sessions S)"
      using that by simp
    then show ?thesis
      using n by (simp add: nth_append)
  qed
  then show ?thesis
    unfolding StartSession using f by simp
next
  case (InSession j b)
  show ?thesis
  proof (cases "j < length (sessions S)")
    case True
    let ?s = "session_state j S"
    have "wf_orders (orders (mem ?s))" "wf_orders (orders (disk ?s))"
      using f m True by (simp_all add: session_state_def)
    from step_wf [OF this, of b]
    have w: "wf_orders (orders (mem (step b ?s)))" "wf_orders (orders (disk (step b ?s)))"
      by blast+
    have st: "sys_step a S
                = \<lparr>data_file = disk (step b ?s), sessions = (sessions S)[j := mem (step b ?s)]\<rparr>"
      using True by (simp add: InSession Let_def)
    have "wf_orders (orders ((sessions S)[j := mem (step b ?s)] ! i))"
      if "i < length (sessions S)" for i
    proof (cases "i = j")
      case True
      then show ?thesis
        using that w(1) by simp
    next
      case False
      then show ?thesis
        using that m by simp
    qed
    then show ?thesis
      unfolding st using w(2) by simp
  next
    case False
    then show ?thesis
      unfolding InSession using f m by simp
  qed
qed

lemma reachable_wf:
  assumes "reachable S"
  shows "wf_orders (orders (data_file S))
       \<and> (\<forall>i<length (sessions S). wf_orders (orders (sessions S ! i)))"
  using assms
proof (induction rule: reachable.induct)
  case (initial S)
  then show ?case
    by (simp add: wf_orders_Nil)
next
  case (after S a)
  then show ?case
    using sys_step_wf [of S a] by blast
qed

lemma sys_run_reachable: "reachable S \<Longrightarrow> reachable (sys_run acts S)"
proof (induction acts arbitrary: S)
  case Nil
  then show ?case by simp
next
  case (Cons a acts)
  from Cons.prems have "reachable (sys_step a S)"
    by (rule reachable.after)
  then show ?case
    using Cons.IH by simp
qed

lemma sys_step_nth:
  assumes m: "\<forall>i<length (sessions S). wf_orders (orders (sessions S ! i))"
    and i: "i < length (sessions S)" and p: "p < length (orders (sessions S ! i))"
  shows "i < length (sessions (sys_step a S))
       \<and> p < length (orders (sessions (sys_step a S) ! i))
       \<and> follows_chain (map_of (orders (sessions S ! i) ! p) ''status'')
                       (map_of (orders (sessions (sys_step a S) ! i) ! p) ''status'')
       \<and> (map_of (orders (sessions S ! i) ! p) ''status'' = Some (VStr ''cancelled'')
          \<or> map_of (orders (sessions S ! i) ! p) ''status'' = Some (VStr ''delivered'')
          \<longrightarrow> orders (sessions (sys_step a S) ! i) ! p = orders (sessions S ! i) ! p)"
proof -
  from sys_step_session [OF i, of a]
  have l: "i < length (sessions (sys_step a S))"
    and c: "sessions (sys_step a S) ! i = sessions S ! i
          \<or> (\<exists>b. sessions (sys_step a S) ! i = mem (step b (session_state i S)))"
    by blast+
  from c show ?thesis
  proof
    assume "sessions (sys_step a S) ! i = sessions S ! i"
    then show ?thesis
      using l p by (simp add: follows_chain_def)
  next
    assume "\<exists>b. sessions (sys_step a S) ! i = mem (step b (session_state i S))"
    then obtain b where b: "sessions (sys_step a S) ! i = mem (step b (session_state i S))"
      by blast
    have wf: "wf_orders (orders (mem (session_state i S)))"
      using m i by (simp add: session_state_def)
    have p': "p < length (orders (mem (session_state i S)))"
      using p by (simp add: session_state_def)
    have e: "mem (session_state i S) = sessions S ! i"
      by (simp add: session_state_def)
    from step_nth [OF wf p', of b] show ?thesis
      unfolding b e using l by blast
  qed
qed

lemma sys_run_terminal:
  assumes "wf_orders (orders (data_file S))"
    and "\<forall>i<length (sessions S). wf_orders (orders (sessions S ! i))"
    and "i < length (sessions S)" and "p < length (orders (sessions S ! i))"
    and "map_of (orders (sessions S ! i) ! p) ''status'' = Some (VStr ''cancelled'')
         \<or> map_of (orders (sessions S ! i) ! p) ''status'' = Some (VStr ''delivered'')"
  shows "i < length (sessions (sys_run acts S))
       \<and> p < length (orders (sessions (sys_run acts S) ! i))
       \<and> orders (sessions (sys_run acts S) ! i) ! p = orders (sessions S ! i) ! p"
  using assms
proof (induction acts arbitrary: S)
  case Nil
  then show ?case by simp
next
  case (Cons a acts)
  from sys_step_nth [OF Cons.prems(2,3,4), of a] Cons.prems(5)
  have n: "i < length (sessions (sys_step a S))"
    "p < length (orders (sessions (sys_step a S) ! i))"
    "orders (sessions (sys_step a S) ! i) ! p = orders (sessions S ! i) ! p"
    by blast+
  from sys_step_wf [OF Cons.prems(1,2), of a]
  have w: "wf_orders (orders (data_file (sys_step a S)))"
    "\<forall>i<length (sessions (sys_step a S)). wf_orders (orders (sessions (sys_step a S) ! i))"
    by blast+
  have t: "map_of (orders (sessions (sys_step a S) ! i) ! p) ''status'' = Some (VStr ''cancelled'')
         \<or> map_of (orders (sessions (sys_step a S) ! i) ! p) ''status'' = Some (VStr ''delivered'')"
    using Cons.prems(5) n(3) by simp
  from Cons.IH [OF w n(1,2) t] show ?case
    using n(3) by simp
qed

text \<open>
  C1 (amended). In every state the application reaches from a file without orders, by
  sessions starting and by checkouts, vendor actions, runs of the customer's tracking page
  and operations on the other collections in those sessions, every order in the file and
  in the store of every session has one of the five statuses. In the store of a session
  every operation leaves every order in place and either keeps its status or moves it
  along one of the edges confirmed to preparing, preparing to out\_for\_delivery,
  out\_for\_delivery to delivered, confirmed to cancelled; so an order that becomes
  cancelled was confirmed or preparing before (in fact confirmed).
\<close>

theorem lifecycle_statuses_follow_chain:
  assumes "reachable S"
  shows "(\<forall>ord\<in>set (orders (data_file S)). \<exists>st\<in>set order_statuses.
            map_of ord ''status'' = Some (VStr st))
       \<and> (\<forall>m\<in>set (sessions S). \<forall>ord\<in>set (orders m). \<exists>st\<in>set order_statuses.
            map_of ord ''status'' = Some (VStr st))
       \<and> (\<forall>a i p. i < length (sessions S) \<and> p < length (orders (sessions S ! i)) \<longrightarrow>
            i < length (sessions (sys_step a S))
            \<and> p < length (orders (sessions (sys_step a S) ! i))
            \<and> follows_chain (map_of (orders (sessions S ! i) ! p) ''status'')
                            (map_of (orders (sessions (sys_step a S) ! i) ! p) ''status'')
            \<and> (map_of (orders (sessions (sys_step a S) ! i) ! p) ''status''
                   = Some (VStr ''cancelled'')
                 \<and> map_of (orders (sessions S ! i) ! p) ''status'' \<noteq> Some (VStr ''cancelled'')
               \<longrightarrow> map_of (orders (sessions S ! i) ! p) ''status'' = Some (VStr ''confirmed'')
                   \<or> map_of (orders (sessions S ! i) ! p) ''status'' = Some (VStr ''preparing'')))"
proof -
  from reachable_wf [OF assms] have wf: "wf_orders (orders (data_file S))"
    and wm: "\<forall>i<length (sessions S). wf_orders (orders (sessions S ! i))"
    by blast+
  have st: "\<forall>ord\<in>set os. \<exists>st\<in>set order_statuses. map_of ord ''status'' = Some (VStr st)"
    if w: "wf_orders os" for os
  proof
    fix ord
    assume "ord \<in> set os"
    then obtain k where "k < length os" "ord = os ! k"
      by (auto simp: in_set_conv_nth)
    then show "\<exists>st\<in>set order_statuses. map_of ord ''status'' = Some (VStr st)"
      using wf_ordersD [OF w, of k] by (simp add: wf_order_def)
  qed
  have a: "\<forall>ord\<in>set (orders (data_file S)). \<exists>st\<in>set order_statuses.
            map_of ord ''status'' = Some (VStr st)"
    using wf by (rule st)
  have b: "\<forall>m\<in>set (sessions S). \<forall>ord\<in>set (orders m). \<exists>st\<in>set order_statuses.
            map_of ord ''status'' = Some (VStr st)"
  proof
    fix m
    assume "m \<in> set (sessions S)"
    then obtain i where "i < length (sessions S)" "m = sessions S ! i"
      by (auto simp: in_set_conv_nth)
    then have "wf_orders (orders m)"
      using wm by simp
    then show "\<forall>ord\<in>set (orders m). \<exists>st\<in>set order_statuses.
            map_of ord ''status'' = Some (VStr st)"
      by (rule st)
  qed
  have c: "i < length (sessions (sys_step a S))
            \<and> p < length (orders (sessions (sys_step a S) ! i))
            \<and> follows_chain (map_of (orders (sessions S ! i) ! p) ''status'')
                            (map_of (orders (sessions (sys_step a S) ! i) ! p) ''status'')
            \<and> (map_of (orders (sessions (sys_step a S) ! i) ! p) ''status''
                   = Some (VStr ''cancelled'')
                 \<and> map_of (orders (sessions S ! i) ! p) ''status'' \<noteq> Some (VStr ''cancelled'')
               \<longrightarrow> map_of (orders (sessions S ! i) ! p) ''status'' = Some (VStr ''confirmed'')
                   \<or> map_of (orders (sessions S ! i) ! p) ''status'' = Some (VStr ''preparing''))"
    if "i < length (sessions S) \<and> p < length (orders (sessions S ! i))" for a i p
  proof -
    from that have i: "i < length (sessions S)" and p: "p < length (orders (sessions S ! i))"
      by simp_all
    from sys_step_nth [OF wm i p, of a]
    have l: "i < length (sessions (sys_step a S))"
      "p < length (orders (sessions (sys_step a S) ! i))"
      and f: "follows_chain (map_of (orders (sessions S ! i) ! p) ''status'')
                            (map_of (orders (sessions (sys_step a S) ! i) ! p) ''status'')"
      by blast+
    have "map_of (orders (sessions S ! i) ! p) ''status'' = Some (VStr ''confirmed'')
                   \<or> map_of (orders (sessions S ! i) ! p) ''status'' = Some (VStr ''preparing'')"
      if "map_of (orders (sessions (sys_step a S) ! i) ! p) ''status'' = Some (VStr ''cancelled'')"
        "map_of (orders (sessions S ! i) ! p) ''status'' \<noteq> Some (VStr ''cancelled'')"
    proof -
      from f that(1)
      have "follows_chain (map_of (orders (sessions S ! i) ! p) ''status'')
              (Some (VStr ''cancelled''))"
        by simp
      then show ?thesis
        using that(2) by (auto simp: follows_chain_def status_edges_def)
    qed
    with l f show ?thesis
      by blast
  qed
  from a b c show ?thesis
    by blast
qed

lemma select_by_total:
  assumes "\<forall>p\<in>set ps. map_of (os ! p) k \<noteq> None"
  shows "\<exists>qs. select_by k P os ps = Inr qs"
  using assms
proof (induction ps)
  case Nil
  then show ?case by simp
next
  case (Cons p ps)
  then obtain v qs where "map_of (os ! p) k = Some v" "select_by k P os ps = Inr qs"
    by auto
  then show ?case
    by (simp add: lookup_def)
qed

lemma new_orders_loop_reject:
  assumes wf: "wf_orders (orders (mem s))"
    and qs: "\<forall>q\<in>set qs. q < length (orders (mem s))"
    and p: "p \<in> set qs" "p < length (orders (mem s))"
    and oid: "map_of (orders (mem s) ! p) ''id'' = Some oid"
  shows "new_orders_loop u (Reject oid) qs s = Some (vendor_action u ''cancelled'' p s)"
  using qs p(1)
proof (induction qs)
  case Nil
  then show ?case by simp
next
  case (Cons q qs)
  have q: "q < length (orders (mem s))"
    using Cons.prems(1) by simp
  have r: "render_new (orders (mem s) ! q) = None"
    using wf_ordersD [OF wf q] by (simp add: wf_order_def)
  show ?case
  proof (cases "q = p")
    case True
    then show ?thesis
      using oid r by (simp add: lookup_def)
  next
    case False
    obtain qid where qid: "map_of (orders (mem s) ! q) ''id'' = Some qid"
      using wf_ordersD [OF wf q] by (simp add: wf_order_def)
    have "qid \<noteq> oid"
    proof
      assume "qid = oid"
      then have "map_of (orders (mem s) ! q) ''id'' = map_of (orders (mem s) ! p) ''id''"
        using qid oid by simp
      from wf_order_id_inj [OF wf_ordersD [OF wf q] wf_ordersD [OF wf p(2)] this]
      show False
        using False by simp
    qed
    moreover have "new_orders_loop u (Reject oid) qs s = Some (vendor_action u ''cancelled'' p s)"
      using Cons.IH Cons.prems False by simp
    ultimately show ?thesis
      using qid r by (simp add: lookup_def)
  qed
qed

lemma vendor_page_reject:
  assumes wf: "wf_orders (orders (mem s))" and p: "p < length (orders (mem s))"
    and st: "map_of (orders (mem s) ! p) ''status'' = Some (VStr ''confirmed'')"
    and oid: "map_of (orders (mem s) ! p) ''id'' = Some oid"
    and rid: "map_of (orders (mem s) ! p) ''restaurant_id'' = Some rid"
  shows "vendor_page u (Reject oid) rid s = vendor_action u ''cancelled'' p s"
proof -
  let ?os = "orders (mem s)"
  have key: "\<forall>q\<in>set ps. map_of (?os ! q) ''status'' \<noteq> None \<and> map_of (?os ! q) ''restaurant_id'' \<noteq> None"
    if "\<forall>q\<in>set ps. q < length ?os" for ps
  proof
    fix q
    assume "q \<in> set ps"
    then have "q < length ?os"
      using that by simp
    from wf_ordersD [OF wf this]
    show "map_of (?os ! q) ''status'' \<noteq> None \<and> map_of (?os ! q) ''restaurant_id'' \<noteq> None"
      by (auto simp: wf_order_def)
  qed
  have "\<forall>q\<in>set [0 ..< length ?os]. map_of (?os ! q) ''restaurant_id'' \<noteq> None"
    using key [of "[0 ..< length ?os]"] by simp
  from select_by_total [OF this]
  obtain ps where ps: "select_by ''restaurant_id'' (\<lambda>v. v = rid) ?os [0 ..< length ?os] = Inr ps"
    by blast
  have pin: "p \<in> set ps"
    using select_by_complete [OF ps _ rid] p by simp
  have pv: "\<forall>q\<in>set ps. q < length ?os"
    using select_by_sound [OF ps] by auto
  then have sk: "\<forall>q\<in>set ps. map_of (?os ! q) ''status'' \<noteq> None"
    using key [of ps] by simp
  obtain n where n: "select_by ''status'' (\<lambda>v. v = VStr ''confirmed'') ?os ps = Inr n"
    using select_by_total [OF sk] by blast
  obtain pr where pr: "select_by ''status'' (\<lambda>v. v = VStr ''preparing'') ?os ps = Inr pr"
    using select_by_total [OF sk] by blast
  obtain ou where ou: "select_by ''status'' (\<lambda>v. v = VStr ''out_for_delivery'') ?os ps = Inr ou"
    using select_by_total [OF sk] by blast
  obtain co where co: "select_by ''status''
                        (\<lambda>v. v = VStr ''delivered'' \<or> v = VStr ''cancelled'') ?os ps = Inr co"
    using select_by_total [OF sk] by blast
  have pn: "p \<in> set n"
    using select_by_complete [OF n pin st] by simp
  have nv: "\<forall>q\<in>set n. q < length ?os"
    using select_by_sound [OF n] pv by auto
  have loop: "new_orders_loop u (Reject oid) n s = Some (vendor_action u ''cancelled'' p s)"
    using wf nv pn p oid by (rule new_orders_loop_reject)
  have ne: "ps \<noteq> []"
    using pin by auto
  have "show_vendor_tracking u (Reject oid) ps s = vendor_action u ''cancelled'' p s"
    using ne by (simp add: show_vendor_tracking_def n pr ou co loop)
  then show ?thesis
    by (simp add: vendor_page_def ps)
qed

lemma place_order_appends:
  assumes "co_delivery_address c \<noteq> []"
  shows "\<exists>ord. fst (place_order w now c s) = Some ord
           \<and> map_of ord ''status'' = Some (VStr ''confirmed'')
           \<and> orders (mem (snd (place_order w now c s))) = orders (mem s) @ [ord]"
proof -
  from place_order_effect [of w now c s]
  have "snd (place_order w now c s) = s
    \<or> (\<exists>ord. fst (place_order w now c s) = Some ord
          \<and> orders (mem (snd (place_order w now c s))) = orders (mem s) @ [ord]
          \<and> wf_order (length (orders (mem s))) ord
          \<and> map_of ord ''status'' = Some (VStr ''confirmed'')
          \<and> co_delivery_address c \<noteq> [])"
    by (rule conjunct1)
  moreover have "snd (place_order w now c s) \<noteq> s"
  proof
    assume e: "snd (place_order w now c s) = s"
    have "length (orders (mem (snd (place_order w now c s)))) = Suc (length (orders (mem s)))"
      using assms by (simp add: place_order_def add_order_def Let_def split: prod.splits)
    then show False
      using e by simp
  qed
  ultimately show ?thesis
    by auto
qed

text \<open>
  C8 (amended). Let the system be in a reachable state and take one of its sessions. A
  checkout with an address appends an order with status \<open>confirmed\<close> to the session's
  store. The Reject button of a confirmed order of the vendor's restaurant sets that
  order's status to \<open>cancelled\<close> in the session's store. An order that is \<open>cancelled\<close>
  or \<open>delivered\<close> in the session's store stays in place and is the same record there
  after any sequence of operations of the system, in this session or in any other.
\<close>

theorem checkout_confirmed_reject_cancels_terminal_states:
  assumes "reachable S" and "i < length (sessions S)"
  shows "(co_delivery_address c \<noteq> [] \<longrightarrow>
            (\<exists>ord. fst (place_order w now c (session_state i S)) = Some ord
                \<and> map_of ord ''status'' = Some (VStr ''confirmed'')
                \<and> orders (sessions (sys_step (InSession i (PlaceOrder w now c)) S) ! i)
                    = orders (sessions S ! i) @ [ord]))
       \<and> (\<forall>p oid rid u.
            p < length (orders (sessions S ! i))
            \<and> map_of (orders (sessions S ! i) ! p) ''status'' = Some (VStr ''confirmed'')
            \<and> map_of (orders (sessions S ! i) ! p) ''id'' = Some oid
            \<and> map_of (orders (sessions S ! i) ! p) ''restaurant_id'' = Some rid
            \<longrightarrow> map_of (orders (sessions
                     (sys_step (InSession i (VendorPage u (Reject oid) rid)) S) ! i) ! p)
                   ''status''
                  = Some (VStr ''cancelled''))
       \<and> (\<forall>acts p.
            p < length (orders (sessions S ! i))
            \<and> (map_of (orders (sessions S ! i) ! p) ''status'' = Some (VStr ''cancelled'')
               \<or> map_of (orders (sessions S ! i) ! p) ''status'' = Some (VStr ''delivered''))
            \<longrightarrow> i < length (sessions (sys_run acts S))
                \<and> p < length (orders (sessions (sys_run acts S) ! i))
                \<and> orders (sessions (sys_run acts S) ! i) ! p = orders (sessions S ! i) ! p)"
proof -
  let ?s = "session_state i S"
  from reachable_wf [OF assms(1)] have wf: "wf_orders (orders (data_file S))"
    and wm: "\<forall>i<length (sessions S). wf_orders (orders (sessions S ! i))"
    by blast+
  have ms: "mem ?s = sessions S ! i"
    by (simp add: session_state_def)
  have wi: "wf_orders (orders (mem ?s))"
    using wm assms(2) by (simp add: session_state_def)
  have a: "\<exists>ord. fst (place_order w now c ?s) = Some ord
                \<and> map_of ord ''status'' = Some (VStr ''confirmed'')
                \<and> orders (sessions (sys_step (InSession i (PlaceOrder w now c)) S) ! i)
                    = orders (sessions S ! i) @ [ord]"
    if "co_delivery_address c \<noteq> []"
  proof -
    have "sessions (sys_step (InSession i (PlaceOrder w now c)) S) ! i
            = mem (snd (place_order w now c ?s))"
      using sys_step_in_session [OF assms(2), of "PlaceOrder w now c"] by simp
    then show ?thesis
      using place_order_appends [OF that, of w now ?s] ms by simp
  qed
  have b: "map_of (orders (sessions
                     (sys_step (InSession i (VendorPage u (Reject oid) rid)) S) ! i) ! p)
                   ''status''
                  = Some (VStr ''cancelled'')"
    if "p < length (orders (sessions S ! i))"
      "map_of (orders (sessions S ! i) ! p) ''status'' = Some (VStr ''confirmed'')"
      "map_of (orders (sessions S ! i) ! p) ''id'' = Some oid"
      "map_of (orders (sessions S ! i) ! p) ''restaurant_id'' = Some rid" for p oid rid u
  proof -
    have p: "p < length (orders (mem ?s))"
      using that(1) ms by simp
    have f: "map_of (orders (mem ?s) ! p) ''status'' = Some (VStr ''confirmed'')"
      "map_of (orders (mem ?s) ! p) ''id'' = Some oid"
      "map_of (orders (mem ?s) ! p) ''restaurant_id'' = Some rid"
      using that(2,3,4) ms by simp_all
    have "vendor_page u (Reject oid) rid ?s = vendor_action u ''cancelled'' p ?s"
      using wi p f by (rule vendor_page_reject)
    moreover have "''cancelled'' \<in> set order_statuses"
      by (simp add: order_statuses_def)
    moreover have "sessions (sys_step (InSession i (VendorPage u (Reject oid) rid)) S) ! i
            = mem (fst (vendor_page u (Reject oid) rid ?s))"
      using sys_step_in_session [OF assms(2), of "VendorPage u (Reject oid) rid"] by simp
    ultimately have "orders (sessions (sys_step (InSession i (VendorPage u (Reject oid) rid)) S) ! i)
           = (orders (mem ?s))[p := AList.update ''status'' (VStr ''cancelled'') (orders (mem ?s) ! p)]"
      using vendor_action_state [OF wi p, of "''cancelled''" u] by simp
    then show ?thesis
      using p by (simp add: map_of_update_same)
  qed
  have t: "i < length (sessions (sys_run acts S))
                \<and> p < length (orders (sessions (sys_run acts S) ! i))
                \<and> orders (sessions (sys_run acts S) ! i) ! p = orders (sessions S ! i) ! p"
    if "p < length (orders (sessions S ! i))"
      "map_of (orders (sessions S ! i) ! p) ''status'' = Some (VStr ''cancelled'')
               \<or> map_of (orders (sessions S ! i) ! p) ''status'' = Some (VStr ''delivered'')"
    for acts p
    using wf wm assms(2) that by (rule sys_run_terminal)
  from a b t show ?thesis
    by blast
qed

section \<open>Instances of the order lifecycle\<close>

text \<open>
  The Accept button, as the Reject button above, and the example data evaluated: the
  states of the system in the two scenarios defined with the transition system.
\<close>

lemma example_order_status [simp]: "map_of (example_order st n) ''status'' = Some (VStr st)"
  by (simp add: example_order_def map_of_update_same)

lemma example_order_id [simp]:
  "map_of (example_order st n) ''id'' = Some (VStr (''order'' @ str_nat n))"
  by (simp add: example_order_def map_of_update_same map_of_update_other)

lemma example_order_restatus:
  "AList.update ''status'' (VStr st') (example_order st n) = example_order st' n"
  by (simp add: example_order_def)

lemma place_example_order:
  "step (PlaceOrder True now example_checkout) \<lparr>mem = example_store os, disk = k\<rparr>
     = \<lparr>mem = example_store (os @ [example_order ''confirmed'' (Suc (length os))]),
        disk = example_store (os @ [example_order ''confirmed'' (Suc (length os))])\<rparr>"
  by (simp add: place_order_def add_order_def Let_def example_store_def example_order_def
      example_checkout_def checkout_order_def save_data_to_file_def)

lemma order_placed_eq:
  "order_placed =
     \<lparr>data_file = example_store [example_order ''confirmed'' 1],
      sessions = [example_store [example_order ''confirmed'' 1],
                  example_store [example_order ''confirmed'' 1]]\<rparr>"
  by (simp add: order_placed_def example_system_def session_state_def place_example_order
      Let_def del: step.simps)

lemma example_customer:
  "get_user_by_id (VStr ''7'') \<lparr>mem = example_store os, disk = k\<rparr>
     = Inr (Some [(''id'', VStr ''7''), (''name'', VStr ''Asha''), (''phone'', VStr ''98'')])"
  by (simp add: get_user_by_id_def example_store_def)

lemma example_order_fields:
  "lookup (example_order st n) ''user_id'' = Inr (VStr ''7'')"
  "lookup (example_order st n) ''restaurant_id'' = Inr (VStr ''rest1'')"
  "lookup (example_order st n) ''restaurant_name'' = Inr (VStr ''Dosa Hut'')"
  "lookup (example_order st n) ''status'' = Inr (VStr st)"
  "lookup (example_order st n) ''id'' = Inr (VStr (''order'' @ str_nat n))"
  "render_new (example_order st n) = None"
  by (simp_all add: lookup_def render_new_def example_order_def example_checkout_def
      checkout_order_def)

lemma new_orders_loop_accept:
  assumes wf: "wf_orders (orders (mem s))"
    and qs: "\<forall>q\<in>set qs. q < length (orders (mem s))"
    and p: "p \<in> set qs" "p < length (orders (mem s))"
    and oid: "map_of (orders (mem s) ! p) ''id'' = Some oid"
  shows "new_orders_loop u (Accept oid) qs s = Some (vendor_action u ''preparing'' p s)"
  using qs p(1)
proof (induction qs)
  case Nil
  then show ?case by simp
next
  case (Cons q qs)
  have q: "q < length (orders (mem s))"
    using Cons.prems(1) by simp
  have r: "render_new (orders (mem s) ! q) = None"
    using wf_ordersD [OF wf q] by (simp add: wf_order_def)
  show ?case
  proof (cases "q = p")
    case True
    then show ?thesis
      using oid r by (simp add: lookup_def)
  next
    case False
    obtain qid where qid: "map_of (orders (mem s) ! q) ''id'' = Some qid"
      using wf_ordersD [OF wf q] by (simp add: wf_order_def)
    have "qid \<noteq> oid"
    proof
      assume "qid = oid"
      then have "map_of (orders (mem s) ! q) ''id'' = map_of (orders (mem s) ! p) ''id''"
        using qid oid by simp
      from wf_order_id_inj [OF wf_ordersD [OF wf q] wf_ordersD [OF wf p(2)] this]
      show False
        using False by simp
    qed
    moreover have "new_orders_loop u (Accept oid) qs s = Some (vendor_action u ''preparing'' p s)"
      using Cons.IH Cons.prems False by simp
    ultimately show ?thesis
      using qid r by (simp add: lookup_def)
  qed
qed

lemma vendor_page_accept:
  assumes wf: "wf_orders (orders (mem s))" and p: "p < length (orders (mem s))"
    and st: "map_of (orders (mem s) ! p) ''status'' = Some (VStr ''confirmed'')"
    and oid: "map_of (orders (mem s) ! p) ''id'' = Some oid"
    and rid: "map_of (orders (mem s) ! p) ''restaurant_id'' = Some rid"
  shows "vendor_page u (Accept oid) rid s = vendor_action u ''preparing'' p s"
proof -
  let ?os = "orders (mem s)"
  have key: "\<forall>q\<in>set ps. map_of (?os ! q) ''status'' \<noteq> None \<and> map_of (?os ! q) ''restaurant_id'' \<noteq> None"
    if "\<forall>q\<in>set ps. q < length ?os" for ps
  proof
    fix q
    assume "q \<in> set ps"
    then have "q < length ?os"
      using that by simp
    from wf_ordersD [OF wf this]
    show "map_of (?os ! q) ''status'' \<noteq> None \<and> map_of (?os ! q) ''restaurant_id'' \<noteq> None"
      by (auto simp: wf_order_def)
  qed
  have "\<forall>q\<in>set [0 ..< length ?os]. map_of (?os ! q) ''restaurant_id'' \<noteq> None"
    using key [of "[0 ..< length ?os]"] by simp
  from select_by_total [OF this]
  obtain ps where ps: "select_by ''restaurant_id'' (\<lambda>v. v = rid) ?os [0 ..< length ?os] = Inr ps"
    by blast
  have pin: "p \<in> set ps"
    using select_by_complete [OF ps _ rid] p by simp
  have pv: "\<forall>q\<in>set ps. q < length ?os"
    using select_by_sound [OF ps] by auto
  then have sk: "\<forall>q\<in>set ps. map_of (?os ! q) ''status'' \<noteq> None"
    using key [of ps] by simp
  obtain n where n: "select_by ''status'' (\<lambda>v. v = VStr ''confirmed'') ?os ps = Inr n"
    using select_by_total [OF sk] by blast
  obtain pr where pr: "select_by ''status'' (\<lambda>v. v = VStr ''preparing'') ?os ps = Inr pr"
    using select_by_total [OF sk] by blast
  obtain ou where ou: "select_by ''status'' (\<lambda>v. v = VStr ''out_for_delivery'') ?os ps = Inr ou"
    using select_by_total [OF sk] by blast
  obtain co where co: "select_by ''status''
                        (\<lambda>v. v = VStr ''delivered'' \<or> v = VStr ''cancelled'') ?os ps = Inr co"
    using select_by_total [OF sk] by blast
  have pn: "p \<in> set n"
    using select_by_complete [OF n pin st] by simp
  have nv: "\<forall>q\<in>set n. q < length ?os"
    using select_by_sound [OF n] pv by auto
  have loop: "new_orders_loop u (Accept oid) n s = Some (vendor_action u ''preparing'' p s)"
    using wf nv pn p oid by (rule new_orders_loop_accept)
  have ne: "ps \<noteq> []"
    using pin by auto
  have "show_vendor_tracking u (Accept oid) ps s = vendor_action u ''preparing'' p s"
    using ne by (simp add: show_vendor_tracking_def n pr ou co loop)
  then show ?thesis
    by (simp add: vendor_page_def ps)
qed

lemma vendor_action_example:
  "vendor_action quiet_ui st 0 \<lparr>mem = example_store (example_order st0 n # os), disk = k\<rparr>
     = (\<lparr>mem = example_store (example_order st n # os),
         disk = example_store (example_order st n # os)\<rparr>, None)"
proof -
  let ?s1 = "\<lparr>mem = example_store (example_order st n # os), disk = k\<rparr>"
  have s1: "set_status 0 st \<lparr>mem = example_store (example_order st0 n # os), disk = k\<rparr> = ?s1"
    by (simp add: set_status_def example_store_def example_order_restatus)
  have o: "orders (mem ?s1) ! 0 = example_order st n"
    by (simp add: example_store_def)
  have n: "send_order_status_update (example_order st n)
             (Some [(''id'', VStr ''7''), (''name'', VStr ''Asha''), (''phone'', VStr ''98'')]) st
           = None"
    by (simp add: send_order_status_update_def example_order_fields lookup_def
        example_order_def example_checkout_def checkout_order_def)
  have u: "update_order True (example_order st n) ?s1
             = Inr (True, \<lparr>mem = example_store (example_order st n # os),
                            disk = example_store (example_order st n # os)\<rparr>)"
    by (simp add: update_order_def update_record_def example_store_def save_data_to_file_def)
  show ?thesis
    unfolding vendor_action_def Let_def s1 o
    by (simp add: example_order_fields example_customer n u quiet_ui_def)
qed

lemma wf_order_example:
  assumes "st \<in> set order_statuses"
  shows "wf_order n (example_order st (Suc n))"
  unfolding wf_order_def using assms
  by (simp add: example_order_fields)
     (simp add: example_order_def example_checkout_def checkout_order_def)

lemma wf_orders_example1:
  assumes "st \<in> set order_statuses"
  shows "wf_orders [example_order st 1]"
  using wf_orders_snoc [OF wf_orders_Nil, of "example_order st 1"] wf_order_example [OF assms, of 0]
  by simp

lemma wf_orders_example2:
  assumes "st \<in> set order_statuses" and "st' \<in> set order_statuses"
  shows "wf_orders [example_order st 1, example_order st' 2]"
  using wf_orders_snoc [OF wf_orders_example1 [OF assms(1)], of "example_order st' 2"]
    wf_order_example [OF assms(2), of 1]
  by (simp add: numeral_2_eq_2)

lemma accept_example:
  assumes "wf_orders (example_order ''confirmed'' 1 # os)"
  shows "step (VendorPage quiet_ui (Accept (VStr ''order1'')) (VStr ''rest1''))
           \<lparr>mem = example_store (example_order ''confirmed'' 1 # os), disk = k\<rparr>
         = \<lparr>mem = example_store (example_order ''preparing'' 1 # os),
            disk = example_store (example_order ''preparing'' 1 # os)\<rparr>"
proof -
  let ?s = "\<lparr>mem = example_store (example_order ''confirmed'' 1 # os), disk = k\<rparr>"
  have "vendor_page quiet_ui (Accept (VStr ''order1'')) (VStr ''rest1'') ?s
          = vendor_action quiet_ui ''preparing'' 0 ?s"
  proof (rule vendor_page_accept)
    show "wf_orders (orders (mem ?s))"
      using assms by (simp add: example_store_def)
    show "0 < length (orders (mem ?s))"
      by (simp add: example_store_def)
    show "map_of (orders (mem ?s) ! 0) ''status'' = Some (VStr ''confirmed'')"
      by (simp add: example_store_def)
    show "map_of (orders (mem ?s) ! 0) ''id'' = Some (VStr ''order1'')"
      by (simp add: example_store_def str_nat_1)
    show "map_of (orders (mem ?s) ! 0) ''restaurant_id'' = Some (VStr ''rest1'')"
      by (simp add: example_store_def example_order_def example_checkout_def checkout_order_def)
  qed
  then show ?thesis
    by (simp add: vendor_action_example)
qed

lemma reject_example:
  assumes "wf_orders (example_order ''confirmed'' 1 # os)"
  shows "step (VendorPage quiet_ui (Reject (VStr ''order1'')) (VStr ''rest1''))
           \<lparr>mem = example_store (example_order ''confirmed'' 1 # os), disk = k\<rparr>
         = \<lparr>mem = example_store (example_order ''cancelled'' 1 # os),
            disk = example_store (example_order ''cancelled'' 1 # os)\<rparr>"
proof -
  let ?s = "\<lparr>mem = example_store (example_order ''confirmed'' 1 # os), disk = k\<rparr>"
  have "vendor_page quiet_ui (Reject (VStr ''order1'')) (VStr ''rest1'') ?s
          = vendor_action quiet_ui ''cancelled'' 0 ?s"
  proof (rule vendor_page_reject)
    show "wf_orders (orders (mem ?s))"
      using assms by (simp add: example_store_def)
    show "0 < length (orders (mem ?s))"
      by (simp add: example_store_def)
    show "map_of (orders (mem ?s) ! 0) ''status'' = Some (VStr ''confirmed'')"
      by (simp add: example_store_def)
    show "map_of (orders (mem ?s) ! 0) ''id'' = Some (VStr ''order1'')"
      by (simp add: example_store_def str_nat_1)
    show "map_of (orders (mem ?s) ! 0) ''restaurant_id'' = Some (VStr ''rest1'')"
      by (simp add: example_store_def example_order_def example_checkout_def checkout_order_def)
  qed
  then show ?thesis
    by (simp add: vendor_action_example)
qed

lemma confirmed_status: "''confirmed'' \<in> set order_statuses"
  by (simp add: order_statuses_def)

lemma accepted_eq:
  "accepted =
     \<lparr>data_file = example_store [example_order ''preparing'' 1],
      sessions = [example_store [example_order ''confirmed'' 1],
                  example_store [example_order ''preparing'' 1]]\<rparr>"
  using accept_example [OF wf_orders_example1 [OF confirmed_status]]
  by (simp add: accepted_def order_placed_eq session_state_def Let_def del: step.simps)

lemma accepted_then_customer_orders_again_eq:
  "accepted_then_customer_orders_again =
     \<lparr>data_file = example_store [example_order ''confirmed'' 1, example_order ''confirmed'' 2],
      sessions = [example_store [example_order ''confirmed'' 1, example_order ''confirmed'' 2],
                  example_store [example_order ''preparing'' 1]]\<rparr>"
  using place_example_order [of 0 "[example_order ''confirmed'' 1]"]
  by (simp add: accepted_then_customer_orders_again_def accepted_eq session_state_def Let_def
      numeral_2_eq_2 del: step.simps)

lemma rejected_eq:
  "rejected =
     \<lparr>data_file = example_store [example_order ''cancelled'' 1],
      sessions = [example_store [example_order ''confirmed'' 1],
                  example_store [example_order ''cancelled'' 1]]\<rparr>"
  using reject_example [OF wf_orders_example1 [OF confirmed_status]]
  by (simp add: rejected_def order_placed_eq session_state_def Let_def del: step.simps)

lemma rejected_then_accepted_in_new_session_eq:
  "rejected_then_accepted_in_new_session =
     \<lparr>data_file = example_store [example_order ''preparing'' 1, example_order ''confirmed'' 2],
      sessions = [example_store [example_order ''confirmed'' 1, example_order ''confirmed'' 2],
                  example_store [example_order ''cancelled'' 1],
                  example_store [example_order ''preparing'' 1, example_order ''confirmed'' 2]]\<rparr>"
  using place_example_order [of 0 "[example_order ''confirmed'' 1]"]
    accept_example [OF wf_orders_example2 [OF confirmed_status confirmed_status]]
  by (simp add: rejected_then_accepted_in_new_session_def rejected_eq session_state_def Let_def
      numeral_2_eq_2 del: step.simps)

lemma example_system_reachable: "reachable example_system"
  by (rule reachable.initial) (simp_all add: example_system_def example_store_def)

lemma order_placed_reachable: "reachable order_placed"
  unfolding order_placed_def using example_system_reachable by (rule sys_run_reachable)

lemma accepted_reachable: "reachable accepted"
  unfolding accepted_def using order_placed_reachable by (rule reachable.after)

lemma rejected_reachable: "reachable rejected"
  unfolding rejected_def using order_placed_reachable by (rule reachable.after)

text \<open>
  An instance of C1: the vendor's session accepts the order that the customer's session
  placed; in the vendor's store the order moves from \<open>confirmed\<close> to \<open>preparing\<close>.
\<close>

theorem lifecycle_statuses_follow_chain_witness:
  "reachable order_placed
   \<and> map_of (orders (sessions order_placed ! 1) ! 0) ''status'' = Some (VStr ''confirmed'')
   \<and> map_of (orders (sessions accepted ! 1) ! 0) ''status'' = Some (VStr ''preparing'')
   \<and> follows_chain (Some (VStr ''confirmed'')) (Some (VStr ''preparing''))"
proof -
  let ?a = "InSession 1 (VendorPage quiet_ui (Accept (VStr ''order1'')) (VStr ''rest1''))"
  have pre: "1 < length (sessions order_placed)
             \<and> 0 < length (orders (sessions order_placed ! 1))"
    by (simp add: order_placed_eq example_store_def)
  have b: "map_of (orders (sessions order_placed ! 1) ! 0) ''status'' = Some (VStr ''confirmed'')"
    by (simp add: order_placed_eq example_store_def)
  have c: "map_of (orders (sessions accepted ! 1) ! 0) ''status'' = Some (VStr ''preparing'')"
    by (simp add: accepted_eq example_store_def)
  from lifecycle_statuses_follow_chain [OF order_placed_reachable, THEN conjunct2,
      THEN conjunct2, THEN spec [where x = ?a], THEN spec [where x = 1],
      THEN spec [where x = 0], THEN mp, OF pre, THEN conjunct2, THEN conjunct2, THEN conjunct1]
  have "follows_chain (map_of (orders (sessions order_placed ! 1) ! 0) ''status'')
          (map_of (orders (sessions accepted ! 1) ! 0) ''status'')"
    unfolding accepted_def .
  then have "follows_chain (Some (VStr ''confirmed'')) (Some (VStr ''preparing''))"
    unfolding b c .
  with order_placed_reachable b c show ?thesis
    by (intro conjI)
qed

text \<open>
  An instance of C8: the vendor's session rejects that order; in the vendor's store it is
  \<open>cancelled\<close>.
\<close>

theorem checkout_confirmed_reject_cancels_terminal_states_witness:
  "reachable order_placed \<and> 1 < length (sessions order_placed)
   \<and> map_of (orders (sessions order_placed ! 1) ! 0) ''status'' = Some (VStr ''confirmed'')
   \<and> map_of (orders (sessions rejected ! 1) ! 0) ''status'' = Some (VStr ''cancelled'')"
proof -
  have l: "1 < length (sessions order_placed)"
    by (simp add: order_placed_eq)
  have b: "map_of (orders (sessions order_placed ! 1) ! 0) ''status'' = Some (VStr ''confirmed'')"
    by (simp add: order_placed_eq example_store_def)
  have pre: "0 < length (orders (sessions order_placed ! 1))
            \<and> map_of (orders (sessions order_placed ! 1) ! 0) ''status''
                = Some (VStr ''confirmed'')
            \<and> map_of (orders (sessions order_placed ! 1) ! 0) ''id'' = Some (VStr ''order1'')
            \<and> map_of (orders (sessions order_placed ! 1) ! 0) ''restaurant_id''
                = Some (VStr ''rest1'')"
    by (simp add: order_placed_eq example_store_def str_nat_1)
       (simp add: example_order_def example_checkout_def checkout_order_def)
  from checkout_confirmed_reject_cancels_terminal_states [OF order_placed_reachable l,
      THEN conjunct2, THEN conjunct1, THEN spec [where x = 0],
      THEN spec [where x = "VStr ''order1''"], THEN spec [where x = "VStr ''rest1''"],
      THEN spec [where x = quiet_ui], THEN mp, OF pre]
  have "map_of (orders (sessions rejected ! 1) ! 0) ''status'' = Some (VStr ''cancelled'')"
    unfolding rejected_def .
  with order_placed_reachable l b show ?thesis
    by (intro conjI)
qed

text \<open>
  C1 (as stated). The customer places order \<open>order1\<close>; the vendor, in a session started
  afterwards, accepts it, and the file holds it as \<open>preparing\<close>. The customer's session,
  open all the time, still holds it as \<open>confirmed\<close>; when the customer places another
  order, \<^verbatim>\<open>add_order\<close> saves that session's whole store, and the file holds \<open>order1\<close> as
  \<open>confirmed\<close> again: the status of the stored order has gone from \<open>preparing\<close> back to
  \<open>confirmed\<close>, which is no edge of the chain.
\<close>

theorem saved_status_goes_back_counterexample:
  "reachable accepted
   \<and> map_of (orders (data_file accepted) ! 0) ''id'' = Some (VStr ''order1'')
   \<and> map_of (orders (data_file accepted) ! 0) ''status'' = Some (VStr ''preparing'')
   \<and> reachable accepted_then_customer_orders_again
   \<and> map_of (orders (data_file accepted_then_customer_orders_again) ! 0) ''id''
       = Some (VStr ''order1'')
   \<and> map_of (orders (data_file accepted_then_customer_orders_again) ! 0) ''status''
       = Some (VStr ''confirmed'')
   \<and> \<not> follows_chain (Some (VStr ''preparing'')) (Some (VStr ''confirmed''))"
proof -
  have r: "reachable accepted_then_customer_orders_again"
    unfolding accepted_then_customer_orders_again_def
    using accepted_reachable by (rule reachable.after)
  have a: "map_of (orders (data_file accepted) ! 0) ''id'' = Some (VStr ''order1'')"
    "map_of (orders (data_file accepted) ! 0) ''status'' = Some (VStr ''preparing'')"
    by (simp_all add: accepted_eq example_store_def str_nat_1)
  have b: "map_of (orders (data_file accepted_then_customer_orders_again) ! 0) ''id''
       = Some (VStr ''order1'')"
    "map_of (orders (data_file accepted_then_customer_orders_again) ! 0) ''status''
       = Some (VStr ''confirmed'')"
    by (simp_all add: accepted_then_customer_orders_again_eq example_store_def str_nat_1)
  have c: "\<not> follows_chain (Some (VStr ''preparing'')) (Some (VStr ''confirmed''))"
    by (simp add: follows_chain_def status_edges_def)
  from accepted_reachable a r b c show ?thesis
    by (intro conjI)
qed

text \<open>
  C8 (as stated). The vendor rejects \<open>order1\<close>: it is \<open>cancelled\<close> in the vendor's
  session and in the file. The customer, whose session still holds it as \<open>confirmed\<close>,
  places another order, which writes that session's store to the file. In a session
  started after that the order is under "New Orders" again, the vendor accepts it, and
  the order that was cancelled is \<open>preparing\<close> in the file and in that session.
\<close>

theorem cancelled_order_accepted_later_counterexample:
  "reachable rejected
   \<and> map_of (orders (data_file rejected) ! 0) ''id'' = Some (VStr ''order1'')
   \<and> map_of (orders (data_file rejected) ! 0) ''status'' = Some (VStr ''cancelled'')
   \<and> map_of (orders (sessions rejected ! 1) ! 0) ''status'' = Some (VStr ''cancelled'')
   \<and> reachable rejected_then_accepted_in_new_session
   \<and> map_of (orders (data_file rejected_then_accepted_in_new_session) ! 0) ''id''
       = Some (VStr ''order1'')
   \<and> map_of (orders (data_file rejected_then_accepted_in_new_session) ! 0) ''status''
       = Some (VStr ''preparing'')
   \<and> map_of (orders (sessions rejected_then_accepted_in_new_session ! 2) ! 0) ''status''
       = Some (VStr ''preparing'')"
proof -
  have r: "reachable rejected_then_accepted_in_new_session"
    unfolding rejected_then_accepted_in_new_session_def
    using rejected_reachable by (rule sys_run_reachable)
  have a: "map_of (orders (data_file rejected) ! 0) ''id'' = Some (VStr ''order1'')"
    "map_of (orders (data_file rejected) ! 0) ''status'' = Some (VStr ''cancelled'')"
    "map_of (orders (sessions rejected ! 1) ! 0) ''status'' = Some (VStr ''cancelled'')"
    by (simp_all add: rejected_eq example_store_def str_nat_1)
  have b: "map_of (orders (data_file rejected_then_accepted_in_new_session) ! 0) ''id''
       = Some (VStr ''order1'')"
    "map_of (orders (data_file rejected_then_accepted_in_new_session) ! 0) ''status''
       = Some (VStr ''preparing'')"
    "map_of (orders (sessions rejected_then_accepted_in_new_session ! 2) ! 0) ''status''
       = Some (VStr ''preparing'')"
    by (simp_all add: rejected_then_accepted_in_new_session_eq example_store_def str_nat_1)
  from rejected_reachable a r b show ?thesis
    by (intro conjI)
qed

end
